theory Spec2Isabelle
  imports Main
begin

section \<open>Line differ (packages/@dollie/core/src/diff.ts)\<close>

text \<open>
  A run of the external line differ (\<open>diffLines\<close> of the package \<open>diff\<close>): a piece of
  text with its two flags. A run with neither flag is common to both texts. The field
  \<open>val\<close> is the source's \<open>value\<close>.
\<close>

record Change =
  val :: string
  added :: bool
  removed :: bool

datatype ConflictGroup = Former | Current

text \<open>
  One line of a change-list. \<open>conflictGroup = None\<close> is the source's absent
  (\<open>undefined\<close>) property; an absent \<open>conflicted\<close> reads as false.
\<close>

record DiffChange = Change +
  lineNumber :: int
  conflicted :: bool
  conflictGroup :: "ConflictGroup option"

abbreviation newline :: char where
  "newline \<equiv> CHR 0x0A"

text \<open>
  \<open>s.split(d)\<close> for a separator of one character: the pieces between the
  separators, never an empty list. \<open>splitFrom\<close> scans the string with the piece
  read so far.
\<close>

fun splitFrom :: "char \<Rightarrow> string \<Rightarrow> string \<Rightarrow> string list" where
  "splitFrom d piece [] = [piece]"
| "splitFrom d piece (c # cs) =
     (if c = d then piece # splitFrom d [] cs else splitFrom d (piece @ [c]) cs)"

definition splitOn :: "char \<Rightarrow> string \<Rightarrow> string list" where
  "splitOn d s = splitFrom d [] s"

text \<open>\<open>s.endsWith('\n')\<close>\<close>

definition endsWith_nl :: "string \<Rightarrow> bool" where
  "endsWith_nl s = (s \<noteq> [] \<and> last s = newline)"

text \<open>
  The body of the \<open>reduce\<close> callback of \<open>diff\<close>: one run becomes one change per line,
  each with a newline appended, the flags of the run copied.
\<close>

definition splitRun :: "Change \<Rightarrow> Change list" where
  "splitRun currentItem =
     map (\<lambda>item. \<lparr>val = item @ [newline], added = added currentItem,
                  removed = removed currentItem\<rparr>)
       (splitOn newline (if endsWith_nl (val currentItem) then butlast (val currentItem)
                  else val currentItem))"

definition splitChanges :: "Change list \<Rightarrow> Change list" where
  "splitChanges changes = concat (map splitRun changes)"

text \<open>
  The \<open>while\<close> loop of \<open>diff\<close>, with the counter \<open>lineNumber\<close> as first argument:
  a change that is not added takes the counter and increments it, an added change
  takes the counter minus one.
\<close>

fun assignLineNumbers :: "int \<Rightarrow> Change list \<Rightarrow> DiffChange list" where
  "assignLineNumbers n [] = []"
| "assignLineNumbers n (c # cs) =
     (if \<not> added c
      then \<lparr>val = val c, added = added c, removed = removed c,
            lineNumber = n, conflicted = False, conflictGroup = None\<rparr>
           # assignLineNumbers (n + 1) cs
      else \<lparr>val = val c, added = added c, removed = removed c,
            lineNumber = n - 1, conflicted = False, conflictGroup = None\<rparr>
           # assignLineNumbers n cs)"

text \<open>
  \<open>diff(originalContent, currentContent?)\<close>. The external \<open>diffLines\<close> is the
  parameter \<open>diffLines\<close>; \<open>currentContent = None\<close> is the omitted argument, and
  \<open>currentContent || originalContent\<close> also replaces the empty string.
\<close>

definition diff :: "(string \<Rightarrow> string \<Rightarrow> Change list) \<Rightarrow> string \<Rightarrow> string option
    \<Rightarrow> DiffChange list" where
  "diff diffLines originalContent currentContent =
     assignLineNumbers 0
       (splitChanges
          (diffLines originalContent
             (case currentContent of
                None \<Rightarrow> originalContent
              | Some c \<Rightarrow> if c = [] then originalContent else c)))"


text \<open>
  The external \<open>diffLines\<close> on two identical texts yields one common run holding the
  text. This stand-in for the library is used only at such inputs.
\<close>

definition selfDiffLines :: "string \<Rightarrow> string \<Rightarrow> Change list" where
  "selfDiffLines oldStr newStr = [\<lparr>val = newStr, added = False, removed = False\<rparr>]"

section \<open>Merge blocks (diff.ts)\<close>

datatype Status = OK | CONFLICT

record Values =
  former :: "string list"
  current :: "string list"

text \<open>
  A merge block; \<open>blockValues\<close> is the source's \<open>values\<close>. An absent \<open>ignored\<close>
  property reads as false.
\<close>

record MergeBlock =
  status :: Status
  blockValues :: Values
  ignored :: bool

text \<open>
  An element of the array that \<open>merge\<close> works on and returns. Besides the lines of
  the baseline and of the overlays, lodash's \<open>_.set\<close> can leave two other things in
  it when it writes beyond the end: an empty slot (\<open>Hole\<close>), and the fresh object
  \<open>{removed: true}\<close> (\<open>RemovedStub\<close>), which has no other property.
\<close>

datatype Entry = Hole | RemovedStub | Line DiffChange

datatype error = TypeError

definition emptyBlock :: "Status \<Rightarrow> MergeBlock" where
  "emptyBlock s = \<lparr>status = s, blockValues = \<lparr>former = [], current = []\<rparr>, ignored = False\<rparr>"

text \<open>\<open>lastMergeBlock.values[group].push(v)\<close> on the last block of the list.\<close>

definition pushToLast :: "ConflictGroup \<Rightarrow> string \<Rightarrow> MergeBlock list \<Rightarrow> MergeBlock list" where
  "pushToLast g v mergeBlocks =
     butlast mergeBlocks @
       [(case g of
           Former \<Rightarrow> (last mergeBlocks)\<lparr>blockValues :=
                        (blockValues (last mergeBlocks))\<lparr>former := former (blockValues (last mergeBlocks)) @ [v]\<rparr>\<rparr>
         | Current \<Rightarrow> (last mergeBlocks)\<lparr>blockValues :=
                        (blockValues (last mergeBlocks))\<lparr>current := current (blockValues (last mergeBlocks)) @ [v]\<rparr>\<rparr>)]"

text \<open>
  The loop of \<open>parseDiffToMergeBlocks\<close>, with the array \<open>mergeBlocks\<close> as first
  argument. Reading \<open>line.removed\<close> of an empty slot, and pushing to
  \<open>values[undefined]\<close> for a conflicted line without a group, raise a TypeError.
\<close>

fun parseLines :: "MergeBlock list \<Rightarrow> Entry list \<Rightarrow> error + MergeBlock list" where
  "parseLines mergeBlocks [] = Inr mergeBlocks"
| "parseLines mergeBlocks (Hole # rest) = Inl TypeError"
| "parseLines mergeBlocks (RemovedStub # rest) = parseLines mergeBlocks rest"
| "parseLines mergeBlocks (Line line # rest) =
     (if removed line then parseLines mergeBlocks rest
      else if conflicted line then
        (let opened = (if mergeBlocks = [] \<or> status (last mergeBlocks) \<noteq> CONFLICT
                       then mergeBlocks @ [emptyBlock CONFLICT] else mergeBlocks)
         in case conflictGroup line of
              None \<Rightarrow> Inl TypeError
            | Some g \<Rightarrow> parseLines (pushToLast g (val line) opened) rest)
      else
        (let opened = (if mergeBlocks = [] \<or> status (last mergeBlocks) = CONFLICT
                       then mergeBlocks @ [emptyBlock OK] else mergeBlocks)
         in parseLines (pushToLast Current (val line) opened) rest))"

definition parseDiffToMergeBlocks :: "Entry list \<Rightarrow> error + MergeBlock list" where
  "parseDiffToMergeBlocks changes = parseLines [] changes"

text \<open>The callback of the \<open>reduce\<close> in \<open>parseMergeBlocksToText\<close>.\<close>

definition appendBlockText :: "string \<Rightarrow> MergeBlock \<Rightarrow> string" where
  "appendBlockText result currentBlock =
     (if status currentBlock = OK
      then result @ concat (current (blockValues currentBlock))
      else result @ ''<<<<<<< former'' @ [newline]
             @ concat (former (blockValues currentBlock))
             @ ''======='' @ [newline]
             @ concat (current (blockValues currentBlock))
             @ ''>>>>>>> current'' @ [newline])"

definition parseMergeBlocksToText :: "MergeBlock list \<Rightarrow> string" where
  "parseMergeBlocksToText blocks = foldl appendBlockText [] blocks"

text \<open>\<open>parseFileTextToMergeBlocks(content)\<close>\<close>

definition parseFileTextToMergeBlocks ::
    "(string \<Rightarrow> string \<Rightarrow> Change list) \<Rightarrow> string \<Rightarrow> error + MergeBlock list" where
  "parseFileTextToMergeBlocks diffLines content =
     parseDiffToMergeBlocks (map Line (diff diffLines content None))"


section \<open>Merger (diff.ts)\<close>

text \<open>
  \<open>Array.prototype.slice\<close>: a negative index counts from the end, every index is
  clamped to the array, and an end before the start gives the empty array.
\<close>

definition relativeIndex :: "nat \<Rightarrow> int \<Rightarrow> nat" where
  "relativeIndex len k = (if k < 0 then nat (max (int len + k) 0) else min (nat k) len)"

definition slice_from :: "'a list \<Rightarrow> int \<Rightarrow> 'a list" where
  "slice_from xs start = drop (relativeIndex (length xs) start) xs"

definition slice :: "'a list \<Rightarrow> int \<Rightarrow> int \<Rightarrow> 'a list" where
  "slice xs start end =
     take (relativeIndex (length xs) end - relativeIndex (length xs) start)
       (drop (relativeIndex (length xs) start) xs)"

text \<open>
  A property key that is an array index: a non-negative integer below \<open>2^32 - 1\<close>.
  \<open>Object.keys\<close> lists such keys first, in ascending order, and then every other key
  in the order of creation; writing to such a key of an array beyond its length
  extends the array.
\<close>

definition isArrayIndex :: "int \<Rightarrow> bool" where
  "isArrayIndex k = (0 \<le> k \<and> k < 4294967295)"

record PatchTableItem =
  changes :: "DiffChange list"
  modifyLength :: nat

text \<open>
  The patch table is an object keyed by line number; the model keeps its properties as
  an association list in the order of creation, one pair per key.
\<close>

type_synonym PatchTable = "(int \<times> PatchTableItem) list"

text \<open>The properties of the patch table in the order of \<open>Object.keys\<close>.\<close>

definition objectEntries :: "PatchTable \<Rightarrow> (int \<times> PatchTableItem) list" where
  "objectEntries patchTable =
     sort_key fst (filter (\<lambda>e. isArrayIndex (fst e)) patchTable)
       @ filter (\<lambda>e. \<not> isArrayIndex (fst e)) patchTable"

text \<open>
  \<open>_.set(originalDiff, [lineNumber, 'removed'], true)\<close>. An element that is an
  object gets the flag. Where the array has no object at the index, lodash first
  stores a fresh object there: beyond the end this extends the array, leaving empty
  slots in between. A key that is not an array index becomes a plain property of the
  array and changes no element.
\<close>

fun markRemoved :: "Entry \<Rightarrow> Entry" where
  "markRemoved Hole = RemovedStub"
| "markRemoved RemovedStub = RemovedStub"
| "markRemoved (Line c) = Line (c\<lparr>removed := True\<rparr>)"

definition setRemoved :: "Entry list \<Rightarrow> int \<Rightarrow> Entry list" where
  "setRemoved originalDiff k =
     (if isArrayIndex k then
        (if nat k < length originalDiff
         then originalDiff[nat k := markRemoved (originalDiff ! nat k)]
         else originalDiff @ replicate (nat k - length originalDiff) Hole @ [RemovedStub])
      else originalDiff)"

text \<open>
  The added branch of the inner loop: create the entry of the line number if there
  is none, then push the change to its \<open>changes\<close>.
\<close>

definition pushPatch :: "PatchTable \<Rightarrow> DiffChange \<Rightarrow> PatchTable" where
  "pushPatch patchTable change =
     map (\<lambda>(k, item). if k = lineNumber change
                       then (k, item\<lparr>changes := changes item @ [change]\<rparr>)
                       else (k, item))
       (if map_of patchTable (lineNumber change) = None
        then patchTable @ [(lineNumber change, \<lparr>changes = [], modifyLength = 0\<rparr>)]
        else patchTable)"

text \<open>One pass of the inner loop over the changes of an overlay.\<close>

definition applyChange :: "Entry list \<times> PatchTable \<Rightarrow> DiffChange \<Rightarrow> Entry list \<times> PatchTable" where
  "applyChange st change =
     (if added change then (fst st, pushPatch (snd st) change)
      else if removed change then (setRemoved (fst st) (lineNumber change), snd st)
      else st)"

text \<open>\<open>_.uniq\<close>: the first occurrence of every element, in order.\<close>

definition uniq :: "'a list \<Rightarrow> 'a list" where
  "uniq xs = rev (remdups (rev xs))"

text \<open>\<open>patchTable[matchedLineNumber].modifyLength += 1\<close>\<close>

definition bumpModifyLength :: "PatchTable \<Rightarrow> int \<Rightarrow> PatchTable" where
  "bumpModifyLength patchTable matchedLineNumber =
     map (\<lambda>(k, item). if k = matchedLineNumber
                       then (k, item\<lparr>modifyLength := modifyLength item + 1\<rparr>)
                       else (k, item))
       patchTable"

text \<open>The body of the outer loop: one overlay.\<close>

definition applyDiff :: "Entry list \<times> PatchTable \<Rightarrow> DiffChange list \<Rightarrow> Entry list \<times> PatchTable" where
  "applyDiff st currentDiff =
     (let st1 = foldl applyChange st currentDiff;
          addedChangeLineNumbers = map lineNumber (filter added currentDiff)
      in (fst st1, foldl bumpModifyLength (snd st1) (uniq addedChangeLineNumbers)))"

text \<open>The second loop: the changes of an entry modified more than once are conflicts.\<close>

definition markConflicts :: "PatchTableItem \<Rightarrow> PatchTableItem" where
  "markConflicts currentPatchItem =
     (if modifyLength currentPatchItem > 1
      then currentPatchItem\<lparr>changes :=
             map (\<lambda>change. change\<lparr>conflicted := True, conflictGroup := Some Current\<rparr>)
               (changes currentPatchItem)\<rparr>
      else currentPatchItem)"

text \<open>
  The loop over \<open>lineNumbers.entries()\<close>: the slice of the baseline between two
  consecutive line numbers, and from the last one to the end.
\<close>

fun sliceBlocks :: "Entry list \<Rightarrow> int list \<Rightarrow> Entry list list" where
  "sliceBlocks originalDiff [] = []"
| "sliceBlocks originalDiff [thisLineNumber] = [slice_from originalDiff (thisLineNumber + 1)]"
| "sliceBlocks originalDiff (thisLineNumber # nextLineNumber # rest) =
     slice originalDiff (thisLineNumber + 1) (nextLineNumber + 1)
       # sliceBlocks originalDiff (nextLineNumber # rest)"

text \<open>
  The final \<open>reduce\<close>, with \<open>currentResult\<close> as first argument: every block is
  followed by the next patch, as long as \<open>patches.shift()\<close> yields one.
\<close>

fun reduceBlocks :: "Entry list \<Rightarrow> Entry list list \<Rightarrow> PatchTableItem list \<Rightarrow> Entry list" where
  "reduceBlocks currentResult [] patches = currentResult"
| "reduceBlocks currentResult (currentBlock # blocks) [] =
     reduceBlocks (currentResult @ currentBlock) blocks []"
| "reduceBlocks currentResult (currentBlock # blocks) (currentPatchItem # patches) =
     reduceBlocks (currentResult @ currentBlock @ map Line (changes currentPatchItem))
       blocks patches"

text \<open>
  \<open>merge(originalChanges, diffList)\<close>. \<open>None\<close> is a null or undefined argument. The
  result is the returned array; the marks of removed lines are written to the line
  objects that the baseline array shares with the working copy. The changes are
  values here: no object is taken to belong to both the baseline and an overlay.
\<close>

definition merge :: "DiffChange list option \<Rightarrow> DiffChange list list option \<Rightarrow> Entry list" where
  "merge originalChanges diffList =
     (case originalChanges of
        None \<Rightarrow> []
      | Some original \<Rightarrow>
         (case diffList of
            None \<Rightarrow> map Line original
          | Some overlays \<Rightarrow>
             if overlays = [] then map Line original
             else
               (let st = foldl applyDiff (map Line original, []) overlays;
                    originalDiff = fst st;
                    entries = objectEntries (map (\<lambda>(k, item). (k, markConflicts item)) (snd st));
                    patches = map snd entries;
                    lineNumbers = (-1) # map fst entries
                in reduceBlocks [] (sliceBlocks originalDiff lineNumbers) patches)))"


section \<open>Generator (the later variant of generator.ts, with the binary table)\<close>

text \<open>
  A table of the generator is an object keyed by pathname; the model keeps it as an
  association list with one pair per key, in the order \<open>Object.keys\<close> lists them. A
  loop over \<open>Object.keys(table)\<close> that reads \<open>table[pathname]\<close> is a traversal of the
  pairs. \<open>assign\<close> is the assignment \<open>table[key] = v\<close>.
\<close>

definition assign :: "('k \<times> 'v) list \<Rightarrow> 'k \<Rightarrow> 'v \<Rightarrow> ('k \<times> 'v) list" where
  "assign table key v =
     (if key \<in> fst ` set table
      then map (\<lambda>(k, old). if k = key then (k, v) else (k, old)) table
      else table @ [(key, v)])"

type_synonym CacheTable = "(string \<times> DiffChange list list) list"
type_synonym MergeTable = "(string \<times> MergeBlock list) list"
type_synonym Buffer = "nat list"
type_synonym BinaryTable = "(string \<times> Buffer) list"

datatype FileContent = Text string | Binary Buffer

record GeneratorResult =
  files :: "(string \<times> FileContent) list"
  conflicts :: "string list"

text \<open>
  The tables of a \<open>Generator\<close>. The glob matcher (matchers.ts) is the parameter
  \<open>matcher\<close> of the functions below: \<open>matcher pathname type\<close> is
  \<open>this.matcher.match(pathname, type)\<close>.
\<close>

record Tables =
  cacheTable :: CacheTable
  mergeTable :: MergeTable
  binaryTable :: BinaryTable

definition deleteFiles :: "(string \<Rightarrow> string \<Rightarrow> bool) \<Rightarrow> Tables \<Rightarrow> Tables" where
  "deleteFiles matcher this =
     this\<lparr>cacheTable :=
       foldl (\<lambda>result (pathname, diffs).
                if \<not> matcher pathname ''delete'' then assign result pathname diffs else result)
         [] (cacheTable this)\<rparr>"

text \<open>
  The body of the loop of \<open>mergeTemplateFiles\<close> for one pathname; an exception
  of \<open>parseDiffToMergeBlocks\<close> ends the run.
\<close>

definition mergeTemplateFile ::
    "(string \<Rightarrow> string \<Rightarrow> bool) \<Rightarrow> MergeTable \<Rightarrow> string \<times> DiffChange list list
      \<Rightarrow> error + MergeTable" where
  "mergeTemplateFile matcher table entry =
     (case entry of (entityPathname, diffs) \<Rightarrow>
        if diffs = [] then Inr table
        else
          (case (if matcher entityPathname ''merge''
                 then (if length diffs = 1
                       then parseDiffToMergeBlocks (map Line (hd diffs))
                       else parseDiffToMergeBlocks (merge (Some (hd diffs)) (Some (tl diffs))))
                 else parseDiffToMergeBlocks (map Line (last diffs)))
           of Inl e \<Rightarrow> Inl e
            | Inr blocks \<Rightarrow> Inr (assign table entityPathname blocks)))"

fun mergeTemplateLoop ::
    "(string \<Rightarrow> string \<Rightarrow> bool) \<Rightarrow> MergeTable \<Rightarrow> CacheTable \<Rightarrow> error + MergeTable" where
  "mergeTemplateLoop matcher table [] = Inr table"
| "mergeTemplateLoop matcher table (entry # entries) =
     (case mergeTemplateFile matcher table entry of
        Inl e \<Rightarrow> Inl e
      | Inr table' \<Rightarrow> mergeTemplateLoop matcher table' entries)"

definition mergeTemplateFiles :: "(string \<Rightarrow> string \<Rightarrow> bool) \<Rightarrow> Tables \<Rightarrow> error + Tables" where
  "mergeTemplateFiles matcher this =
     (case mergeTemplateLoop matcher (mergeTable this) (cacheTable this) of
        Inl e \<Rightarrow> Inl e
      | Inr table \<Rightarrow> Inr (this\<lparr>mergeTable := table\<rparr>))"

record ConflictBlockMetadata =
  pathname :: string
  index :: nat

text \<open>\<open>getConflictedFileDataList\<close>: the positions of the conflicts not yet ignored.\<close>

definition getConflictedFileDataList :: "MergeTable \<Rightarrow> ConflictBlockMetadata list" where
  "getConflictedFileDataList table =
     concat (map (\<lambda>(p, mergeBlocks).
                    map (\<lambda>(i, mergeBlock). \<lparr>pathname = p, index = i\<rparr>)
                      (filter (\<lambda>(i, mergeBlock). status mergeBlock = CONFLICT \<and> \<not> ignored mergeBlock)
                         (zip [0..<length mergeBlocks] mergeBlocks)))
               table)"

text \<open>\<open>getIgnoredConflictedFilePathnameList\<close> of the later variant.\<close>

definition getIgnoredConflictedFilePathnameList :: "MergeTable \<Rightarrow> string list" where
  "getIgnoredConflictedFilePathnameList table =
     uniq (concat (map (\<lambda>(p, mergeBlocks).
                          map (\<lambda>mergeBlock. p)
                            (filter (\<lambda>mergeBlock. status mergeBlock = CONFLICT) mergeBlocks))
                     table))"

text \<open>
  \<open>getIgnoredConflictedFilePathnameList\<close> of the earlier variant
  (packages/@dollie/core/src/generator.ts): only ignored conflicts, no \<open>_.uniq\<close>.
\<close>

definition getIgnoredConflictedFilePathnameList_earlier :: "MergeTable \<Rightarrow> string list" where
  "getIgnoredConflictedFilePathnameList_earlier table =
     concat (map (\<lambda>(p, mergeBlocks).
                    map (\<lambda>mergeBlock. p)
                      (filter (\<lambda>mergeBlock. status mergeBlock = CONFLICT \<and> ignored mergeBlock)
                         mergeBlocks))
               table)"

text \<open>
  \<open>getResult\<close>: the text of every merge table entry, merged into the binary table
  by lodash's \<open>_.merge\<close> (a text replaces a buffer of the same pathname), and the
  conflict list.
\<close>

definition getResult :: "Tables \<Rightarrow> GeneratorResult" where
  "getResult this =
     \<lparr>files =
        foldl (\<lambda>result (p, content). assign result p content)
          (map (\<lambda>(p, buffer). (p, Binary buffer)) (binaryTable this))
          (foldl (\<lambda>result (p, mergeBlocks). assign result p (Text (parseMergeBlocksToText mergeBlocks)))
             [] (mergeTable this)),
      conflicts = getIgnoredConflictedFilePathnameList (mergeTable this)\<rparr>"


subsection \<open>Conflict resolution\<close>

text \<open>
  What \<open>conflictsSolver\<close> returns: \<open>null\<close>, the string \<open>'ignored'\<close>, a merge
  block, or a value that \<open>_.isEmpty\<close> accepts (\<open>undefined\<close>, an empty object).
\<close>

datatype SolverResult = Null | Ignored | Solved MergeBlock | Empty

text \<open>The argument of \<open>conflictsSolver\<close>.\<close>

record SolverContext =
  ctxPathname :: string
  ctxTotal :: nat
  ctxBlock :: MergeBlock
  ctxIndex :: int
  ctxContent :: string

text \<open>\<open>Array.prototype.findIndex\<close>: the first position that satisfies, or \<open>-1\<close>.\<close>

fun findIndex :: "('a \<Rightarrow> bool) \<Rightarrow> 'a list \<Rightarrow> int" where
  "findIndex P [] = -1"
| "findIndex P (x # xs) =
     (if P x then 0 else (let r = findIndex P xs in if r < 0 then -1 else r + 1))"

definition solverContext ::
    "ConflictBlockMetadata list \<Rightarrow> ConflictBlockMetadata \<Rightarrow> MergeBlock list \<Rightarrow> SolverContext" where
  "solverContext totalConflicts item mergeBlocks =
     (let currentPathnameConflicts = filter (\<lambda>c. pathname c = pathname item) totalConflicts
      in \<lparr>ctxPathname = pathname item,
          ctxTotal = length currentPathnameConflicts,
          ctxBlock = mergeBlocks ! index item,
          ctxIndex = findIndex (\<lambda>conflict. index item = index conflict) currentPathnameConflicts,
          ctxContent = parseMergeBlocksToText mergeBlocks\<rparr>)"

text \<open>
  What the loop of \<open>resolveConflicts\<close> does with the solver's result for the item
  just taken from the work list; \<open>rest\<close> is the remaining work list and
  \<open>mergeBlocks\<close> is \<open>this.mergeTable[pathname]\<close>. The work list only holds
  positions of existing blocks (lemma \<open>conflict_item_in_table\<close>), so the array is
  never written beyond its end.
\<close>

definition resolveStep ::
    "SolverResult \<Rightarrow> ConflictBlockMetadata \<Rightarrow> ConflictBlockMetadata list \<Rightarrow> MergeBlock list
      \<Rightarrow> MergeTable \<Rightarrow> ConflictBlockMetadata list \<times> MergeTable" where
  "resolveStep result item rest mergeBlocks table =
     (case result of
        Null \<Rightarrow> (item # rest, table)
      | Ignored \<Rightarrow>
          (rest, assign table (pathname item)
                   (mergeBlocks[index item := (mergeBlocks ! index item)\<lparr>ignored := True\<rparr>]))
      | Solved block \<Rightarrow>
          (rest, assign table (pathname item)
                   (mergeBlocks[index item := block\<lparr>status := OK\<rparr>]))
      | Empty \<Rightarrow> (rest, table))"

text \<open>
  The \<open>while\<close> loop of \<open>resolveConflicts\<close>. The solver is user code, modelled as a
  function of the number of earlier calls and of its argument. The loop need not end
  (a solver may return \<open>null\<close> for ever): \<open>None\<close> is the run that never returns.
  Reading \<open>this.mergeTable[pathname][index]\<close> for a pathname without entry raises a
  TypeError.
\<close>

partial_function (option) resolveLoop ::
    "(nat \<Rightarrow> SolverContext \<Rightarrow> SolverResult) \<Rightarrow> ConflictBlockMetadata list \<Rightarrow> nat
      \<Rightarrow> ConflictBlockMetadata list \<Rightarrow> MergeTable \<Rightarrow> (error + MergeTable) option" where
  "resolveLoop conflictsSolver totalConflicts calls remained table =
     (case remained of
        [] \<Rightarrow> Some (Inr table)
      | item # rest \<Rightarrow>
          (case map_of table (pathname item) of
             None \<Rightarrow> Some (Inl TypeError)
           | Some mergeBlocks \<Rightarrow>
               resolveLoop conflictsSolver totalConflicts (calls + 1)
                 (fst (resolveStep (conflictsSolver calls (solverContext totalConflicts item mergeBlocks))
                         item rest mergeBlocks table))
                 (snd (resolveStep (conflictsSolver calls (solverContext totalConflicts item mergeBlocks))
                         item rest mergeBlocks table))))"

text \<open>\<open>resolveConflicts\<close>; \<open>conflictsSolver = None\<close> is a configuration without solver.\<close>

definition resolveConflicts ::
    "(nat \<Rightarrow> SolverContext \<Rightarrow> SolverResult) option \<Rightarrow> Tables \<Rightarrow> (error + Tables) option" where
  "resolveConflicts conflictsSolver this =
     (case conflictsSolver of
        None \<Rightarrow> Some (Inr this)
      | Some solver \<Rightarrow>
          (case resolveLoop solver (getConflictedFileDataList (mergeTable this)) 0
                  (getConflictedFileDataList (mergeTable this)) (mergeTable this)
           of None \<Rightarrow> None
            | Some (Inl e) \<Rightarrow> Some (Inl e)
            | Some (Inr table) \<Rightarrow> Some (Inr (this\<lparr>mergeTable := table\<rparr>))))"

subsection \<open>Template properties\<close>

text \<open>
  The values of a template configuration, as far as \<open>getTemplateProps\<close> looks at
  them.
\<close>

datatype jsval =
    JUndefined
  | JString string
  | JArray "jsval list"
  | JObject "(string \<times> jsval) list"

text \<open>
  lodash's \<open>_.get(object, path)\<close> for a path written with dots: the path is cut at
  every dot and followed through the objects; a step from a value that is not an
  object, or to a missing key, gives \<open>undefined\<close>. Keys written with brackets, and
  an object that has the whole path as one of its keys, are not modelled.
\<close>

definition getProperty :: "jsval \<Rightarrow> string \<Rightarrow> jsval" where
  "getProperty object key =
     (case object of
        JObject properties \<Rightarrow> (case map_of properties key of Some v \<Rightarrow> v | None \<Rightarrow> JUndefined)
      | _ \<Rightarrow> JUndefined)"

definition lodashGet :: "jsval \<Rightarrow> string \<Rightarrow> jsval" where
  "lodashGet object path = foldl getProperty object (splitOn CHR ''.'' path)"

text \<open>\<open>questions && _.isArray(questions) && questions.length > 0\<close>\<close>

fun nonEmptyArray :: "jsval \<Rightarrow> bool" where
  "nonEmptyArray (JArray (q # qs)) = True"
| "nonEmptyArray other = False"

record TemplatePropsItem =
  props :: jsval
  label :: string

record Enumeration =
  templateConfig :: jsval
  templatePropsList :: "TemplatePropsItem list"
  pendingTemplateLabels :: "string list"

text \<open>
  \<open>getTemplateProps(extendTemplateLabel = null)\<close> of the later variant. The
  callback \<open>config.getTemplateProps\<close> (\<open>None\<close> when it is not a function) and
  \<open>answersParser\<close> (props.ts), whose result is the pair of \<open>props\<close> and
  \<open>pendingExtendTemplateLabels\<close>, are parameters. The function returns the new
  state and the arguments with which it has called the callback.
\<close>

definition getTemplateProps ::
    "(jsval \<Rightarrow> jsval) option \<Rightarrow> (jsval \<Rightarrow> jsval \<times> string list) \<Rightarrow> Enumeration \<Rightarrow> string option
      \<Rightarrow> Enumeration \<times> jsval list" where
  "getTemplateProps callback answersParser this extendTemplateLabel =
     (let questions =
            (case extendTemplateLabel of
               None \<Rightarrow> lodashGet (templateConfig this) ''questions''
             | Some l \<Rightarrow>
                 if l \<noteq> []
                 then lodashGet (templateConfig this) (''extendTemplates.'' @ l @ ''.questions'')
                 else lodashGet (templateConfig this) ''questions'');
          itemLabel = (case extendTemplateLabel of
                         None \<Rightarrow> ''main''
                       | Some l \<Rightarrow> if l \<noteq> [] then l else ''main'')
      in case callback of
           None \<Rightarrow> (this, [])
         | Some ask \<Rightarrow>
             if nonEmptyArray questions then
               (let asked = getProperty (templateConfig this) ''questions'';
                    parsed = answersParser (ask asked)
                in (this\<lparr>pendingTemplateLabels :=
                            pendingTemplateLabels this @ map (\<lambda>l. ''extend:'' @ l) (snd parsed),
                          templatePropsList :=
                            templatePropsList this @ [\<lparr>props = fst parsed, label = itemLabel\<rparr>]\<rparr>,
                    [asked]))
             else
               (this\<lparr>templatePropsList :=
                        templatePropsList this @ [\<lparr>props = JObject [], label = itemLabel\<rparr>]\<rparr>,
                []))"

text \<open>
  \<open>getTemplateProps\<close> of the earlier variant
  (packages/@dollie/core/src/generator.ts): the two branches that choose \<open>questions\<close>
  are the other way round, a null label is spliced into the path as \<open>null\<close>, and
  nothing is recorded when the questions are empty.
\<close>

definition getTemplateProps_earlier ::
    "(jsval \<Rightarrow> jsval) option \<Rightarrow> (jsval \<Rightarrow> jsval \<times> string list) \<Rightarrow> Enumeration \<Rightarrow> string option
      \<Rightarrow> Enumeration \<times> jsval list" where
  "getTemplateProps_earlier callback answersParser this extendTemplateLabel =
     (let questions =
            (case extendTemplateLabel of
               None \<Rightarrow> lodashGet (templateConfig this) ''extendTemplates.null.questions''
             | Some l \<Rightarrow>
                 if l \<noteq> []
                 then lodashGet (templateConfig this) ''questions''
                 else lodashGet (templateConfig this) (''extendTemplates.'' @ l @ ''.questions''));
          itemLabel = (case extendTemplateLabel of
                         None \<Rightarrow> ''main''
                       | Some l \<Rightarrow> if l \<noteq> [] then l else ''main'')
      in case callback of
           None \<Rightarrow> (this, [])
         | Some ask \<Rightarrow>
             if nonEmptyArray questions then
               (let asked = getProperty (templateConfig this) ''questions'';
                    parsed = answersParser (ask asked)
                in (this\<lparr>templatePropsList :=
                            templatePropsList this @ [\<lparr>props = fst parsed, label = itemLabel\<rparr>],
                          pendingTemplateLabels :=
                            pendingTemplateLabels this @ map (\<lambda>l. ''extend:'' @ l) (snd parsed)\<rparr>,
                    [asked]))
             else (this, []))"

section \<open>Auxiliary notions\<close>

text \<open>The values of the lines that \<open>parseDiffToMergeBlocks\<close> does not skip.\<close>

fun visibleValues :: "Entry list \<Rightarrow> string list" where
  "visibleValues [] = []"
| "visibleValues (Line c # rest) = (if removed c then visibleValues rest else val c # visibleValues rest)"
| "visibleValues (e # rest) = visibleValues rest"

text \<open>An entry that is neither an empty slot nor a visible conflicted line.\<close>

fun plainEntry :: "Entry \<Rightarrow> bool" where
  "plainEntry Hole = False"
| "plainEntry RemovedStub = True"
| "plainEntry (Line c) = (removed c \<or> \<not> conflicted c)"

text \<open>
  Pushing the lines \<open>ls\<close> to the \<open>current\<close> group of the last block when its status
  is \<open>s\<close>, and of a fresh block of status \<open>s\<close> otherwise.
\<close>

definition pushLines :: "Status \<Rightarrow> string list \<Rightarrow> MergeBlock list \<Rightarrow> MergeBlock list" where
  "pushLines s ls mergeBlocks =
     (if ls = [] then mergeBlocks
      else if mergeBlocks = [] \<or> status (last mergeBlocks) \<noteq> s
      then mergeBlocks @ [\<lparr>status = s, blockValues = \<lparr>former = [], current = ls\<rparr>, ignored = False\<rparr>]
      else butlast mergeBlocks @
             [(last mergeBlocks)\<lparr>blockValues :=
                (blockValues (last mergeBlocks))\<lparr>current := current (blockValues (last mergeBlocks)) @ ls\<rparr>\<rparr>])"

text \<open>
  An example of a matcher: a pathname matches \<open>delete\<close> when it ends with
  \<open>.tmp\<close>, and no pathname matches \<open>merge\<close>.
\<close>

definition tmpMatcher :: "string \<Rightarrow> string \<Rightarrow> bool" where
  "tmpMatcher p type = (type = ''delete'' \<and> drop (length p - 4) p = ''.tmp'')"

text \<open>The changes that an overlay inserts at the anchor \<open>k\<close>.\<close>

definition insertedAt :: "int \<Rightarrow> DiffChange list \<Rightarrow> DiffChange list" where
  "insertedAt k currentDiff = filter (\<lambda>c. added c \<and> lineNumber c = k) currentDiff"

text \<open>The \<open>changes\<close> and the \<open>modifyLength\<close> of the entry of a key, if there is one.\<close>

definition changesAt :: "PatchTable \<Rightarrow> int \<Rightarrow> DiffChange list" where
  "changesAt patchTable k = (case map_of patchTable k of None \<Rightarrow> [] | Some item \<Rightarrow> changes item)"

definition modifiedAt :: "PatchTable \<Rightarrow> int \<Rightarrow> nat" where
  "modifiedAt patchTable k = (case map_of patchTable k of None \<Rightarrow> 0 | Some item \<Rightarrow> modifyLength item)"

text \<open>An inserted line: an entry that is an added change.\<close>

fun isInsertion :: "Entry \<Rightarrow> bool" where
  "isInsertion (Line c) = added c"
| "isInsertion e = False"

text \<open>
  A copy of the baseline in which some lines have got the mark \<open>removed\<close>: what
  the working array of \<open>merge\<close> holds as long as every removed change of the
  overlays points into the baseline.
\<close>

definition markedCopy :: "DiffChange list \<Rightarrow> DiffChange list \<Rightarrow> bool" where
  "markedCopy original cs =
     (length cs = length original
      \<and> (\<forall>i<length cs. cs ! i = original ! i \<or> cs ! i = (original ! i)\<lparr>removed := True\<rparr>))"

text \<open>The mark that \<open>merge\<close> puts on the changes of a conflict.\<close>

definition markConflicted :: "DiffChange \<Rightarrow> DiffChange" where
  "markConflicted change = change\<lparr>conflicted := True, conflictGroup := Some Current\<rparr>"

text \<open>
  An example of a solver: it answers \<open>'ignored'\<close> at its first call, \<open>null\<close> at its
  second, and from then on returns the block it is shown.
\<close>

definition exampleSolver :: "nat \<Rightarrow> SolverContext \<Rightarrow> SolverResult" where
  "exampleSolver calls ctx =
     (if calls = 0 then Ignored else if calls = 1 then Null else Solved (ctxBlock ctx))"

section \<open>Properties of the line differ\<close>

lemma splitFrom_nonempty: "splitFrom d piece s \<noteq> []"
  by (induction s arbitrary: piece) auto

lemma concat_splitFrom:
  "concat (map (\<lambda>l. l @ [d]) (splitFrom d piece s)) = piece @ s @ [d]"
  by (induction s arbitrary: piece) auto

lemma split_nl_nonempty: "splitOn newline s \<noteq> []"
  by (simp add: splitOn_def splitFrom_nonempty)

lemma concat_split_nl: "concat (map (\<lambda>l. l @ [newline]) (splitOn newline s)) = s @ [newline]"
  by (simp add: splitOn_def concat_splitFrom)

lemma assign_length: "length (assignLineNumbers n cs) = length cs"
  by (induction cs arbitrary: n) auto

lemma assign_val: "map val (assignLineNumbers n cs) = map val cs"
  by (induction cs arbitrary: n) auto

lemma assign_removed: "map removed (assignLineNumbers n cs) = map removed cs"
  by (induction cs arbitrary: n) auto

lemma assign_conflicted: "c \<in> set (assignLineNumbers n cs) \<Longrightarrow> \<not> conflicted c"
  by (induction cs arbitrary: n) (auto split: if_splits)

lemma assign_lineNumber:
  "i < length cs \<Longrightarrow>
   lineNumber (assignLineNumbers n cs ! i) =
     n + int (length (filter (\<lambda>c. \<not> added c) (take i (assignLineNumbers n cs))))
       - (if added (assignLineNumbers n cs ! i) then 1 else 0)"
proof (induction cs arbitrary: n i)
  case Nil
  then show ?case by simp
next
  case (Cons c cs)
  show ?case
  proof (cases i)
    case 0
    then show ?thesis by simp
  next
    case (Suc k)
    with Cons.prems have k: "k < length cs" by simp
    show ?thesis using Cons.IH[OF k, of "n + 1"] Cons.IH[OF k, of n] Suc by simp
  qed
qed

lemma filter_count_mono:
  assumes "i < j" "j \<le> length r"
  shows "length (filter P (take i r)) + (if P (r ! i) then 1 else 0) \<le> length (filter P (take j r))"
proof -
  have "take (Suc i) r = take i r @ [r ! i]"
    using assms by (simp add: take_Suc_conv_app_nth)
  moreover have "take j r = take (Suc i) r @ drop (Suc i) (take j r)"
    using assms by (metis Suc_leI append_take_drop_id min.absorb2 take_take min.commute)
  ultimately have "take j r = take i r @ [r ! i] @ drop (Suc i) (take j r)"
    by simp
  then have "filter P (take j r) =
      filter P (take i r) @ filter P [r ! i] @ filter P (drop (Suc i) (take j r))"
    by (metis filter_append)
  then show ?thesis by simp
qed

lemma numbering:
  fixes r n
  defines "cnt \<equiv> \<lambda>i. int (length (filter (\<lambda>c. \<not> added c) (take i r)))"
  assumes r: "r = assignLineNumbers n cs"
  shows "\<forall>i<length r. lineNumber (r ! i) = (if added (r ! i) then n + cnt i - 1 else n + cnt i)"
    and "sorted (map lineNumber r)"
    and "\<forall>i j. i < j \<and> j < length r \<and> lineNumber (r ! i) = lineNumber (r ! j) \<longrightarrow> added (r ! j)"
proof -
  have L: "\<And>i. i < length r \<Longrightarrow>
      lineNumber (r ! i) = n + cnt i - (if added (r ! i) then 1 else 0)"
    unfolding cnt_def r using assign_lineNumber by (simp add: assign_length)
  show "\<forall>i<length r. lineNumber (r ! i) = (if added (r ! i) then n + cnt i - 1 else n + cnt i)"
    using L by simp
  have M: "\<And>i j. i < j \<Longrightarrow> j < length r \<Longrightarrow>
      cnt i + (if \<not> added (r ! i) then 1 else 0) \<le> cnt j"
  proof -
    fix i j
    assume "i < j" "j < length r"
    then have "length (filter (\<lambda>c. \<not> added c) (take i r)) + (if \<not> added (r ! i) then 1 else 0)
        \<le> length (filter (\<lambda>c. \<not> added c) (take j r))"
      using filter_count_mono[of i j r "\<lambda>c. \<not> added c"] by simp
    then show "cnt i + (if \<not> added (r ! i) then 1 else 0) \<le> cnt j"
      unfolding cnt_def by (simp split: if_splits)
  qed
  have S: "\<And>i j. i < j \<Longrightarrow> j < length r \<Longrightarrow> lineNumber (r ! i) \<le> lineNumber (r ! j)"
  proof -
    fix i j
    assume ij: "i < j" "j < length r"
    then have "i < length r" by simp
    from L[OF this] L[OF ij(2)] M[OF ij] show "lineNumber (r ! i) \<le> lineNumber (r ! j)"
      by (simp split: if_splits)
  qed
  show "sorted (map lineNumber r)"
    unfolding sorted_iff_nth_mono_less using S by simp
  show "\<forall>i j. i < j \<and> j < length r \<and> lineNumber (r ! i) = lineNumber (r ! j) \<longrightarrow> added (r ! j)"
  proof (intro allI impI)
    fix i j
    assume a: "i < j \<and> j < length r \<and> lineNumber (r ! i) = lineNumber (r ! j)"
    then have "i < length r" by simp
    from L[OF this] L[of j] M[of i j] a show "added (r ! j)"
      by (simp split: if_splits)
  qed
qed

text \<open>
  C9. In the change-list of \<open>diff\<close>, a change that is not added (common or removed)
  carries the number of such changes before it, which is the counter at that moment,
  and an added change carries that number minus one. Hence the line numbers never
  decrease, and of two changes with the same line number the later one is added.
\<close>

theorem diff_lineNumbers:
  assumes "r = diff diffLines a b"
  shows "(\<forall>i<length r. lineNumber (r ! i) =
            (if added (r ! i)
             then int (length (filter (\<lambda>c. \<not> added c) (take i r))) - 1
             else int (length (filter (\<lambda>c. \<not> added c) (take i r)))))
       \<and> sorted (map lineNumber r)
       \<and> (\<forall>i j. i < j \<and> j < length r \<and> lineNumber (r ! i) = lineNumber (r ! j)
              \<longrightarrow> added (r ! j))"
proof -
  have r: "r = assignLineNumbers 0
      (splitChanges (diffLines a (case b of None \<Rightarrow> a | Some c \<Rightarrow> if c = [] then a else c)))"
    using assms by (simp only: diff_def)
  have c1: "\<forall>i<length r. lineNumber (r ! i) =
            (if added (r ! i)
             then int (length (filter (\<lambda>c. \<not> added c) (take i r))) - 1
             else int (length (filter (\<lambda>c. \<not> added c) (take i r))))"
    using numbering(1)[OF r] by simp
  show ?thesis
    by (rule conjI[OF c1 conjI[OF numbering(2)[OF r] numbering(3)[OF r]]])
qed

theorem diff_lineNumbers_witness:
  "map lineNumber
     (diff (\<lambda>x y. [\<lparr>val = ''a'' @ [newline], added = False, removed = False\<rparr>,
                    \<lparr>val = ''x'' @ [newline] @ ''y'' @ [newline], added = True, removed = False\<rparr>,
                    \<lparr>val = ''b'' @ [newline], added = False, removed = True\<rparr>,
                    \<lparr>val = ''c'', added = False, removed = False\<rparr>])
        (''a'' @ [newline] @ ''b'' @ [newline] @ ''c'')
        (Some (''a'' @ [newline] @ ''x'' @ [newline] @ ''y'' @ [newline] @ ''c'')))
   = [0, 0, 0, 1, 2]
   \<and> sorted [0, 0, 0, 1, 2 :: int]"
  using diff_lineNumbers[OF refl,
      of "\<lambda>x y. [\<lparr>val = ''a'' @ [newline], added = False, removed = False\<rparr>,
                    \<lparr>val = ''x'' @ [newline] @ ''y'' @ [newline], added = True, removed = False\<rparr>,
                    \<lparr>val = ''b'' @ [newline], added = False, removed = True\<rparr>,
                    \<lparr>val = ''c'', added = False, removed = False\<rparr>]"
         "''a'' @ [newline] @ ''b'' @ [newline] @ ''c''"
         "Some (''a'' @ [newline] @ ''x'' @ [newline] @ ''y'' @ [newline] @ ''c'')"]
  by (simp add: diff_def splitChanges_def splitRun_def endsWith_nl_def splitOn_def)

text \<open>
  C10. An empty current text is replaced by the original text, as an omitted one is:
  \<open>diff(a, "")\<close> is \<open>diff(a)\<close>, the diff of \<open>a\<close> against itself. So where the line
  differ reports no removed run for two identical texts, the result has no removed
  change.
\<close>

theorem diff_empty_current:
  "diff diffLines a (Some []) = diff diffLines a None
   \<and> diff diffLines a (Some []) = assignLineNumbers 0 (splitChanges (diffLines a a))
   \<and> ((\<forall>run \<in> set (diffLines a a). \<not> removed run)
        \<longrightarrow> (\<forall>c \<in> set (diff diffLines a (Some [])). \<not> removed c))"
proof -
  have "\<not> removed c"
    if runs: "\<forall>run \<in> set (diffLines a a). \<not> removed run"
      and c: "c \<in> set (diff diffLines a (Some []))" for c
  proof -
    from c have "removed c \<in> set (map removed (assignLineNumbers 0 (splitChanges (diffLines a a))))"
      unfolding diff_def by auto
    then have "removed c \<in> set (map removed (splitChanges (diffLines a a)))"
      by (simp only: assign_removed)
    then show ?thesis
      using runs by (auto simp: splitChanges_def splitRun_def)
  qed
  then show ?thesis by (auto simp: diff_def)
qed

theorem diff_empty_current_witness:
  "map removed (selfDiffLines (''a'' @ [newline] @ ''b'') (''a'' @ [newline] @ ''b'')) = [False]
   \<and> diff selfDiffLines (''a'' @ [newline] @ ''b'') (Some [])
       = diff selfDiffLines (''a'' @ [newline] @ ''b'') None
   \<and> map removed (diff selfDiffLines (''a'' @ [newline] @ ''b'') (Some [])) = [False, False]"
  using diff_empty_current[of selfDiffLines "''a'' @ [newline] @ ''b''"]
  by (simp add: diff_def splitChanges_def splitRun_def endsWith_nl_def selfDiffLines_def splitOn_def)

section \<open>Properties of the block parser\<close>

lemma status_cases: "(s \<noteq> CONFLICT) = (s = OK)" "(s \<noteq> OK) = (s = CONFLICT)"
  by (cases s; simp)+

lemma pushLines_step:
  "pushLines s ls
     (pushToLast Current v
        (if mergeBlocks = [] \<or> status (last mergeBlocks) \<noteq> s
         then mergeBlocks @ [emptyBlock s] else mergeBlocks))
   = pushLines s (v # ls) mergeBlocks"
  by (cases "mergeBlocks = []"; cases "status (last mergeBlocks) = s")
     (auto simp: pushLines_def pushToLast_def emptyBlock_def)

lemma parseLines_plain:
  "\<forall>e \<in> set xs. plainEntry e \<Longrightarrow>
   parseLines mergeBlocks (xs @ rest) = parseLines (pushLines OK (visibleValues xs) mergeBlocks) rest"
proof (induction xs arbitrary: mergeBlocks)
  case Nil
  show ?case by (simp add: pushLines_def)
next
  case (Cons e xs)
  show ?case
  proof (cases e)
    case Hole
    with Cons.prems show ?thesis by simp
  next
    case RemovedStub
    with Cons show ?thesis by simp
  next
    case (Line c)
    show ?thesis
    proof (cases "removed c")
      case True
      with Line Cons show ?thesis by simp
    next
      case False
      with Line Cons.prems have nc: "\<not> conflicted c" by simp
      have "parseLines mergeBlocks ((e # xs) @ rest) =
          parseLines (pushToLast Current (val c)
            (if mergeBlocks = [] \<or> status (last mergeBlocks) \<noteq> OK
             then mergeBlocks @ [emptyBlock OK] else mergeBlocks)) (xs @ rest)"
        using Line False nc by (simp add: status_cases)
      also have "\<dots> = parseLines (pushLines OK (visibleValues xs)
          (pushToLast Current (val c)
            (if mergeBlocks = [] \<or> status (last mergeBlocks) \<noteq> OK
             then mergeBlocks @ [emptyBlock OK] else mergeBlocks))) rest"
        using Cons by simp
      also have "\<dots> = parseLines (pushLines OK (val c # visibleValues xs) mergeBlocks) rest"
        by (simp only: pushLines_step)
      finally show ?thesis using Line False by simp
    qed
  qed
qed

lemma parseLines_conflicts:
  "\<forall>c \<in> set cs. conflicted c \<and> \<not> removed c \<and> conflictGroup c = Some Current \<Longrightarrow>
   parseLines mergeBlocks (map Line cs @ rest) = parseLines (pushLines CONFLICT (map val cs) mergeBlocks) rest"
proof (induction cs arbitrary: mergeBlocks)
  case Nil
  show ?case by (simp add: pushLines_def)
next
  case (Cons c cs)
  have "parseLines mergeBlocks (map Line (c # cs) @ rest) =
      parseLines (pushToLast Current (val c)
        (if mergeBlocks = [] \<or> status (last mergeBlocks) \<noteq> CONFLICT
         then mergeBlocks @ [emptyBlock CONFLICT] else mergeBlocks)) (map Line cs @ rest)"
    using Cons.prems by simp
  also have "\<dots> = parseLines (pushLines CONFLICT (map val cs)
      (pushToLast Current (val c)
        (if mergeBlocks = [] \<or> status (last mergeBlocks) \<noteq> CONFLICT
         then mergeBlocks @ [emptyBlock CONFLICT] else mergeBlocks))) rest"
    using Cons by simp
  also have "\<dots> = parseLines (pushLines CONFLICT (val c # map val cs) mergeBlocks) rest"
    by (simp only: pushLines_step)
  finally show ?case by simp
qed

lemma toText_acc: "foldl appendBlockText acc bs = acc @ foldl appendBlockText [] bs"
proof (induction bs arbitrary: acc)
  case Nil
  show ?case by simp
next
  case (Cons b bs)
  have "foldl appendBlockText acc (b # bs) = appendBlockText acc b @ foldl appendBlockText [] bs"
    using Cons[of "appendBlockText acc b"] by simp
  moreover have "foldl appendBlockText [] (b # bs) = appendBlockText [] b @ foldl appendBlockText [] bs"
    using Cons[of "appendBlockText [] b"] by simp
  moreover have "appendBlockText acc b = acc @ appendBlockText [] b"
    by (simp add: appendBlockText_def)
  ultimately show ?case by simp
qed

lemma toText_append:
  "parseMergeBlocksToText (xs @ ys) = parseMergeBlocksToText xs @ parseMergeBlocksToText ys"
  unfolding parseMergeBlocksToText_def using toText_acc[of "foldl appendBlockText [] xs" ys] by simp

lemma visibleValues_lines:
  "visibleValues (map Line cs) = map val (filter (\<lambda>c. \<not> removed c) cs)"
  by (induction cs) auto

lemma assign_not_removed:
  "\<forall>c \<in> set cs. \<not> removed c \<Longrightarrow> c \<in> set (assignLineNumbers n cs) \<Longrightarrow> \<not> removed c"
  by (induction cs arbitrary: n) (auto split: if_splits)

lemma diff_self_blocks:
  assumes "diffLines t t = [\<lparr>val = t, added = False, removed = False\<rparr>]"
  shows "parseFileTextToMergeBlocks diffLines t =
     Inr [\<lparr>status = OK,
           blockValues = \<lparr>former = [],
              current = map (\<lambda>l. l @ [newline]) (splitOn newline (if endsWith_nl t then butlast t else t))\<rparr>,
           ignored = False\<rparr>]"
proof -
  let ?ls = "splitOn newline (if endsWith_nl t then butlast t else t)"
  let ?cs = "map (\<lambda>item. \<lparr>val = item @ [newline], added = False, removed = False\<rparr>) ?ls"
  let ?r = "assignLineNumbers 0 ?cs"
  have d: "diff diffLines t None = ?r"
    using assms by (simp add: diff_def splitChanges_def splitRun_def)
  have plain: "\<forall>e \<in> set (map Line ?r). plainEntry e"
    using assign_conflicted by auto
  have "\<forall>c \<in> set ?r. \<not> removed c"
    using assign_not_removed[of ?cs _ 0] by auto
  then have vis: "visibleValues (map Line ?r) = map val ?r"
    unfolding visibleValues_lines by (simp only: filter_True)
  have vals: "map val ?r = map (\<lambda>l. l @ [newline]) ?ls"
    by (simp only: assign_val) (simp add: comp_def)
  have ne: "map (\<lambda>l. l @ [newline]) ?ls \<noteq> []"
    using split_nl_nonempty by simp
  have "parseLines [] (map Line ?r @ []) = parseLines (pushLines OK (visibleValues (map Line ?r)) []) []"
    using parseLines_plain[OF plain] by blast
  then show ?thesis
    using ne unfolding parseFileTextToMergeBlocks_def parseDiffToMergeBlocks_def d vis vals
    by (simp add: pushLines_def)
qed

text \<open>
  C1, as the code has it. Where the line differ returns the text as one common run,
  the text of the blocks of the self-diff of \<open>t\<close> is \<open>t\<close> when \<open>t\<close> ends with a
  newline, and \<open>t\<close> followed by a newline otherwise: every line gets a terminator.
\<close>

theorem self_diff_text:
  assumes "diffLines t t = [\<lparr>val = t, added = False, removed = False\<rparr>]"
  shows "map_sum id parseMergeBlocksToText (parseFileTextToMergeBlocks diffLines t) =
           Inr (if endsWith_nl t then t else t @ [newline])"
proof -
  have "concat (map (\<lambda>l. l @ [newline]) (splitOn newline (if endsWith_nl t then butlast t else t)))
      = (if endsWith_nl t then t else t @ [newline])"
  proof (cases "endsWith_nl t")
    case True
    then have "butlast t @ [newline] = t"
      unfolding endsWith_nl_def by (metis append_butlast_last_id)
    with True show ?thesis by (simp only: concat_split_nl if_True)
  next
    case False
    then show ?thesis by (simp only: concat_split_nl if_False)
  qed
  then show ?thesis
    unfolding diff_self_blocks[of diffLines t, OF assms]
    by (simp add: parseMergeBlocksToText_def appendBlockText_def)
qed

theorem self_diff_text_witness:
  "selfDiffLines (''ab'' @ [newline] @ ''c'' @ [newline]) (''ab'' @ [newline] @ ''c'' @ [newline])
     = [\<lparr>val = ''ab'' @ [newline] @ ''c'' @ [newline], added = False, removed = False\<rparr>]
   \<and> endsWith_nl (''ab'' @ [newline] @ ''c'' @ [newline])
   \<and> map_sum id parseMergeBlocksToText
       (parseFileTextToMergeBlocks selfDiffLines (''ab'' @ [newline] @ ''c'' @ [newline]))
     = Inr (''ab'' @ [newline] @ ''c'' @ [newline])"
  using self_diff_text[of selfDiffLines "''ab'' @ [newline] @ ''c'' @ [newline]"]
  by (simp add: selfDiffLines_def endsWith_nl_def)

theorem self_diff_text_counterexample:
  "map_sum id parseMergeBlocksToText (parseFileTextToMergeBlocks selfDiffLines ''abc'')
     = Inr (''abc'' @ [newline])
   \<and> map_sum id parseMergeBlocksToText (parseFileTextToMergeBlocks selfDiffLines ''abc'')
     \<noteq> Inr ''abc''"
  by (simp add: parseFileTextToMergeBlocks_def parseDiffToMergeBlocks_def diff_def
      selfDiffLines_def splitChanges_def splitRun_def endsWith_nl_def splitOn_def
      pushToLast_def emptyBlock_def parseMergeBlocksToText_def appendBlockText_def)

section \<open>Properties of the generator's tables\<close>

lemma set_uniq: "set (uniq xs) = set xs"
  by (simp add: uniq_def)

lemma distinct_uniq: "distinct (uniq xs)"
  by (simp add: uniq_def)

lemma map_fst_assign:
  "map fst (assign table key v) =
     (if key \<in> fst ` set table then map fst table else map fst table @ [key])"
proof -
  have "map fst (map (\<lambda>(k, old). if k = key then (k, v) else (k, old)) table) = map fst table"
    by (induction table) auto
  then show ?thesis by (simp add: assign_def)
qed

lemma keys_assign: "fst ` set (assign table key v) = insert key (fst ` set table)"
proof -
  have "set (map fst (assign table key v)) = insert key (set (map fst table))"
    unfolding map_fst_assign by auto
  then show ?thesis by simp
qed

lemma distinct_assign: "distinct (map fst table) \<Longrightarrow> distinct (map fst (assign table key v))"
  unfolding map_fst_assign by auto

lemma map_of_update_values:
  "map_of (map (\<lambda>(k, old). if k = key then (k, v) else (k, old)) table) k =
     (if k = key then map_option (\<lambda>old. v) (map_of table k) else map_of table k)"
proof (induction table)
  case Nil
  show ?case by simp
next
  case (Cons e table)
  obtain k' old where e: "e = (k', old)" by (cases e)
  show ?case unfolding e using Cons by (cases "k = key") simp_all
qed

lemma map_of_assign:
  "map_of (assign table key v) k = (if k = key then Some v else map_of table k)"
proof (cases "key \<in> fst ` set table")
  case True
  then obtain old where "map_of table key = Some old"
    by (metis map_of_eq_None_iff not_Some_eq)
  with True show ?thesis
    by (simp add: assign_def map_of_update_values)
next
  case False
  then have "map_of table key = None"
    by (simp add: map_of_eq_None_iff)
  with False show ?thesis
    by (auto simp: assign_def map_add_def split: option.splits)
qed

lemma conflict_pathnames:
  "set (getIgnoredConflictedFilePathnameList table) =
     {p. \<exists>bs. (p, bs) \<in> set table \<and> (\<exists>b \<in> set bs. status b = CONFLICT)}"
  unfolding getIgnoredConflictedFilePathnameList_def set_uniq by force

lemma conflict_pathnames_earlier:
  "set (getIgnoredConflictedFilePathnameList_earlier table) =
     {p. \<exists>bs. (p, bs) \<in> set table \<and> (\<exists>b \<in> set bs. status b = CONFLICT \<and> ignored b)}"
  unfolding getIgnoredConflictedFilePathnameList_earlier_def by force

lemma entry_map_of:
  "distinct (map fst table) \<Longrightarrow> ((p, bs) \<in> set table) = (map_of table p = Some bs)"
  by (auto dest: map_of_SomeD)

text \<open>
  C2, as the code has it. A pathname is in \<open>conflicts\<close> exactly when its merge table
  entry holds a \<open>CONFLICT\<close> block, ignored or not.
\<close>

theorem conflicts_report:
  assumes "distinct (map fst (mergeTable this))"
  shows "(p \<in> set (conflicts (getResult this))) =
           (\<exists>bs. map_of (mergeTable this) p = Some bs \<and> (\<exists>b \<in> set bs. status b = CONFLICT))"
  using entry_map_of[OF assms] by (simp add: getResult_def conflict_pathnames)

theorem conflicts_report_witness:
  "distinct (map fst [(''a.txt'', [\<lparr>status = CONFLICT,
                                     blockValues = \<lparr>former = [], current = [''Y'' @ [newline]]\<rparr>,
                                     ignored = False\<rparr>])])
   \<and> ''a.txt'' \<in> set (conflicts (getResult
        \<lparr>cacheTable = [],
         mergeTable = [(''a.txt'', [\<lparr>status = CONFLICT,
                                     blockValues = \<lparr>former = [], current = [''Y'' @ [newline]]\<rparr>,
                                     ignored = False\<rparr>])],
         binaryTable = []\<rparr>))"
  using conflicts_report[of
      "\<lparr>cacheTable = [],
         mergeTable = [(''a.txt'', [\<lparr>status = CONFLICT,
                                     blockValues = \<lparr>former = [], current = [''Y'' @ [newline]]\<rparr>,
                                     ignored = False\<rparr>])],
         binaryTable = []\<rparr>" "''a.txt''"]
  by simp

theorem conflicts_report_counterexample:
  "conflicts (getResult
     \<lparr>cacheTable = [],
      mergeTable = [(''a.txt'', [\<lparr>status = CONFLICT,
                                  blockValues = \<lparr>former = [], current = [''Y'' @ [newline]]\<rparr>,
                                  ignored = True\<rparr>])],
      binaryTable = []\<rparr>) = [''a.txt'']
   \<and> getConflictedFileDataList
       [(''a.txt'', [\<lparr>status = CONFLICT,
                      blockValues = \<lparr>former = [], current = [''Y'' @ [newline]]\<rparr>,
                      ignored = True\<rparr>])] = []"
  by (simp add: getResult_def getIgnoredConflictedFilePathnameList_def
      getConflictedFileDataList_def uniq_def)

subsection \<open>The delete policy\<close>

lemma keys_foldl_assign:
  "fst ` set (foldl (\<lambda>result (p, x). assign result p (f p x)) acc xs) = fst ` set acc \<union> fst ` set xs"
proof (induction xs arbitrary: acc)
  case Nil
  show ?case by simp
next
  case (Cons x xs)
  obtain p v where x: "x = (p, v)" by (cases x)
  show ?case
    unfolding x by (simp add: Cons.IH keys_assign)
qed

lemma keys_delete_loop:
  "fst ` set (foldl (\<lambda>result (pathname, diffs).
        if \<not> matcher pathname ''delete'' then assign result pathname diffs else result) acc xs)
   = fst ` set acc \<union> {p \<in> fst ` set xs. \<not> matcher p ''delete''}"
proof (induction xs arbitrary: acc)
  case Nil
  show ?case by simp
next
  case (Cons x xs)
  obtain p v where x: "x = (p, v)" by (cases x)
  show ?case
  proof (cases "matcher p ''delete''")
    case True
    then show ?thesis unfolding x by (simp add: Cons.IH) blast
  next
    case False
    then show ?thesis unfolding x by (simp add: Cons.IH keys_assign) blast
  qed
qed

lemma keys_deleteFiles:
  "fst ` set (cacheTable (deleteFiles matcher this)) =
     {p \<in> fst ` set (cacheTable this). \<not> matcher p ''delete''}"
  using keys_delete_loop[of matcher "[]" "cacheTable this"] by (simp add: deleteFiles_def)

lemma keys_mergeTemplateFile:
  assumes "mergeTemplateFile matcher table entry = Inr table'"
  shows "fst ` set table' \<subseteq> insert (fst entry) (fst ` set table)"
proof -
  obtain p diffs where entry: "entry = (p, diffs)" by (cases entry)
  from assms have "table' = table \<or> (\<exists>blocks. table' = assign table p blocks)"
    unfolding entry mergeTemplateFile_def by (auto split: if_splits sum.splits)
  then show ?thesis
  proof
    assume "table' = table"
    then show ?thesis by auto
  next
    assume "\<exists>blocks. table' = assign table p blocks"
    then obtain blocks where "table' = assign table p blocks" ..
    then have "fst ` set table' = insert p (fst ` set table)"
      by (simp only: keys_assign)
    then show ?thesis unfolding entry by simp
  qed
qed

lemma keys_mergeTemplateLoop:
  "mergeTemplateLoop matcher table entries = Inr table' \<Longrightarrow>
   fst ` set table' \<subseteq> fst ` set table \<union> fst ` set entries"
proof (induction entries arbitrary: table)
  case Nil
  then show ?case by simp
next
  case (Cons entry entries)
  then obtain t1 where t1: "mergeTemplateFile matcher table entry = Inr t1"
      and rest: "mergeTemplateLoop matcher t1 entries = Inr table'"
    by (auto split: sum.splits)
  from Cons.IH[OF rest] keys_mergeTemplateFile[OF t1] show ?case by auto
qed

lemma keys_files:
  "fst ` set (files (getResult this)) = fst ` set (binaryTable this) \<union> fst ` set (mergeTable this)"
proof -
  have "fst ` set (foldl (\<lambda>result (p, content). assign result p content) acc xs)
      = fst ` set acc \<union> fst ` set xs" for acc :: "(string \<times> FileContent) list" and xs
    using keys_foldl_assign[of "\<lambda>p x. x" acc xs] by simp
  moreover have "fst ` set (foldl (\<lambda>result (p, mergeBlocks).
          assign result p (Text (parseMergeBlocksToText mergeBlocks))) [] (mergeTable this))
      = fst ` set (mergeTable this)"
    using keys_foldl_assign[of "\<lambda>p x. Text (parseMergeBlocksToText x)" "[]" "mergeTable this"]
    by simp
  ultimately show ?thesis
    by (simp add: getResult_def image_image split_def)
qed

text \<open>
  C7, as the code has it. \<open>deleteFiles\<close> prunes the cache table only. A pathname
  that matches the \<open>delete\<close> policy has no entry in the merge table built from the
  pruned cache table, and it is in \<open>files\<close> exactly when the binary table has it.
\<close>

theorem delete_policy:
  assumes "matcher p ''delete''"
    and "mergeTable this = []"
    and "mergeTemplateFiles matcher (deleteFiles matcher this) = Inr this'"
  shows "p \<notin> fst ` set (cacheTable (deleteFiles matcher this))
       \<and> p \<notin> fst ` set (mergeTable this')
       \<and> (p \<in> fst ` set (files (getResult this'))) = (p \<in> fst ` set (binaryTable this))"
proof -
  have c: "p \<notin> fst ` set (cacheTable (deleteFiles matcher this))"
    using assms(1) by (simp add: keys_deleteFiles)
  from assms(3) obtain table where
      loop: "mergeTemplateLoop matcher (mergeTable (deleteFiles matcher this))
               (cacheTable (deleteFiles matcher this)) = Inr table"
      and this': "this' = (deleteFiles matcher this)\<lparr>mergeTable := table\<rparr>"
    by (auto simp: mergeTemplateFiles_def split: sum.splits)
  have "mergeTable (deleteFiles matcher this) = []"
    using assms(2) by (simp add: deleteFiles_def)
  with keys_mergeTemplateLoop[OF loop] c have m: "p \<notin> fst ` set table"
    by auto
  have b: "binaryTable this' = binaryTable this"
    using this' by (simp add: deleteFiles_def)
  show ?thesis
    using c m b this' by (simp add: keys_files)
qed

theorem delete_policy_witness:
  "tmpMatcher ''y.tmp'' ''delete''
   \<and> mergeTemplateFiles tmpMatcher (deleteFiles tmpMatcher
        \<lparr>cacheTable = [(''y.tmp'', [[\<lparr>val = ''tmp'' @ [newline], added = False, removed = False,
                                       lineNumber = 0, conflicted = False, conflictGroup = None\<rparr>]])],
         mergeTable = [],
         binaryTable = []\<rparr>)
     = Inr \<lparr>cacheTable = [], mergeTable = [], binaryTable = []\<rparr>
   \<and> ''y.tmp'' \<notin> fst ` set (files (getResult \<lparr>cacheTable = [], mergeTable = [], binaryTable = []\<rparr>))"
proof -
  let ?tables = "\<lparr>cacheTable = [(''y.tmp'', [[\<lparr>val = ''tmp'' @ [newline], added = False, removed = False,
                                       lineNumber = 0, conflicted = False, conflictGroup = None\<rparr>]])],
         mergeTable = [],
         binaryTable = []\<rparr>"
  have h1: "tmpMatcher ''y.tmp'' ''delete''"
    by (simp add: tmpMatcher_def)
  have h2: "mergeTable ?tables = []"
    by simp
  have h3: "mergeTemplateFiles tmpMatcher (deleteFiles tmpMatcher ?tables)
      = Inr \<lparr>cacheTable = [], mergeTable = [], binaryTable = []\<rparr>"
    by (simp add: mergeTemplateFiles_def deleteFiles_def tmpMatcher_def)
  show ?thesis
    using delete_policy[OF h1 h2 h3] h1 h3 by simp
qed

theorem delete_policy_counterexample:
  "tmpMatcher ''x.tmp'' ''delete''
   \<and> mergeTemplateFiles tmpMatcher (deleteFiles tmpMatcher
        \<lparr>cacheTable = [(''y.tmp'', [[\<lparr>val = ''tmp'' @ [newline], added = False, removed = False,
                                       lineNumber = 0, conflicted = False, conflictGroup = None\<rparr>]])],
         mergeTable = [],
         binaryTable = [(''x.tmp'', [0, 159])]\<rparr>)
     = Inr \<lparr>cacheTable = [], mergeTable = [], binaryTable = [(''x.tmp'', [0, 159])]\<rparr>
   \<and> files (getResult \<lparr>cacheTable = [], mergeTable = [], binaryTable = [(''x.tmp'', [0, 159])]\<rparr>)
     = [(''x.tmp'', Binary [0, 159])]"
  by (simp add: mergeTemplateFiles_def deleteFiles_def tmpMatcher_def getResult_def)

section \<open>Properties of the template enumeration\<close>

text \<open>
  C8 at an extend label. With the questions of the extend template \<open>foo\<close> under
  \<open>extendTemplates.foo\<close>, the later variant looks for them under the key
  \<open>extend:foo\<close>, finds none and does not call the callback. Where it finds
  questions under that key, it passes the questions of the main template to the
  callback, and so does the earlier variant.
\<close>

theorem getTemplateProps_extend_label:
  "snd (getTemplateProps (Some ask) answersParser
          \<lparr>templateConfig = JObject
              [(''questions'', JArray [JString ''Q1'']),
               (''extendTemplates'', JObject
                  [(''foo'', JObject [(''questions'', JArray [JString ''Q2''])])])],
           templatePropsList = ps, pendingTemplateLabels = ls\<rparr>
          (Some ''extend:foo'')) = []
   \<and> snd (getTemplateProps (Some ask) answersParser
          \<lparr>templateConfig = JObject
              [(''questions'', JArray [JString ''Q1'']),
               (''extendTemplates'', JObject
                  [(''extend:foo'', JObject [(''questions'', JArray [JString ''Q2''])])])],
           templatePropsList = ps, pendingTemplateLabels = ls\<rparr>
          (Some ''extend:foo'')) = [JArray [JString ''Q1'']]
   \<and> snd (getTemplateProps_earlier (Some ask) answersParser
          \<lparr>templateConfig = JObject
              [(''questions'', JArray [JString ''Q1'']),
               (''extendTemplates'', JObject
                  [(''foo'', JObject [(''questions'', JArray [JString ''Q2''])])])],
           templatePropsList = ps, pendingTemplateLabels = ls\<rparr>
          (Some ''extend:foo'')) = [JArray [JString ''Q1'']]"
  by (simp add: getTemplateProps_def getTemplateProps_earlier_def lodashGet_def getProperty_def splitOn_def
      Let_def)

text \<open>At the label \<open>main\<close> the later variant passes the questions of the main template.\<close>

lemma getTemplateProps_main:
  "snd (getTemplateProps (Some ask) answersParser this None) =
     (if nonEmptyArray (getProperty (templateConfig this) ''questions'')
      then [getProperty (templateConfig this) ''questions''] else [])"
  by (simp add: getTemplateProps_def lodashGet_def Let_def splitOn_def)

section \<open>Properties of the merger\<close>

subsection \<open>The patch table\<close>

lemma map_fst_update_items:
  "map fst (map (\<lambda>(k, item). if k = key then (k, f item) else (k, item)) table) = map fst table"
  by (induction table) auto

lemma map_of_update_items:
  "map_of (map (\<lambda>(k, item). if k = key then (k, f item) else (k, item)) table) k =
     (if k = key then map_option f (map_of table k) else map_of table k)"
proof (induction table)
  case Nil
  show ?case by simp
next
  case (Cons e table)
  obtain k' item where e: "e = (k', item)" by (cases e)
  show ?case unfolding e using Cons by (cases "k = key") simp_all
qed

lemma map_fst_pushPatch:
  "map fst (pushPatch patchTable c) =
     (if lineNumber c \<in> fst ` set patchTable then map fst patchTable
      else map fst patchTable @ [lineNumber c])"
  unfolding pushPatch_def map_fst_update_items by (simp add: map_of_eq_None_iff)

lemma keys_pushPatch:
  "fst ` set (pushPatch patchTable c) = insert (lineNumber c) (fst ` set patchTable)"
proof -
  have "set (map fst (pushPatch patchTable c)) = insert (lineNumber c) (set (map fst patchTable))"
    unfolding map_fst_pushPatch by auto
  then show ?thesis by simp
qed

lemma map_of_pushPatch:
  "map_of (pushPatch patchTable c) k =
     (if k = lineNumber c
      then Some (case map_of patchTable k of
                   None \<Rightarrow> \<lparr>changes = [c], modifyLength = 0\<rparr>
                 | Some item \<Rightarrow> item\<lparr>changes := changes item @ [c]\<rparr>)
      else map_of patchTable k)"
  by (auto simp: pushPatch_def map_of_update_items map_add_def split: option.splits)

lemma changesAt_pushPatch:
  "changesAt (pushPatch patchTable c) k =
     changesAt patchTable k @ (if k = lineNumber c then [c] else [])"
  by (simp add: changesAt_def map_of_pushPatch split: option.splits)

lemma modifiedAt_pushPatch: "modifiedAt (pushPatch patchTable c) k = modifiedAt patchTable k"
  by (simp add: modifiedAt_def map_of_pushPatch split: option.splits)

lemma changesAt_bump: "changesAt (bumpModifyLength patchTable m) k = changesAt patchTable k"
  by (simp add: changesAt_def bumpModifyLength_def map_of_update_items split: option.splits)

lemma map_fst_bump: "map fst (bumpModifyLength patchTable m) = map fst patchTable"
  unfolding bumpModifyLength_def by (rule map_fst_update_items)

lemma modifiedAt_bump:
  "modifiedAt (bumpModifyLength patchTable m) k =
     modifiedAt patchTable k + (if k = m \<and> m \<in> fst ` set patchTable then 1 else 0)"
proof -
  have "(m \<in> fst ` set patchTable) = (map_of patchTable m \<noteq> None)"
    by (simp add: map_of_eq_None_iff)
  then show ?thesis
    by (auto simp: modifiedAt_def bumpModifyLength_def map_of_update_items split: option.splits)
qed

subsection \<open>One overlay\<close>

lemma applyChange_noop:
  "\<not> added c \<Longrightarrow> \<not> removed c \<or> \<not> isArrayIndex (lineNumber c) \<Longrightarrow> applyChange st c = st"
  by (auto simp: applyChange_def setRemoved_def)

lemma applyDiff_drop:
  assumes "\<not> added c" "\<not> removed c \<or> \<not> isArrayIndex (lineNumber c)"
  shows "applyDiff st (o1 @ c # o2) = applyDiff st (o1 @ o2)"
proof -
  have "foldl applyChange st (o1 @ c # o2) = foldl applyChange st (o1 @ o2)"
    using applyChange_noop[OF assms] by simp
  moreover have "filter added (o1 @ c # o2) = filter added (o1 @ o2)"
    using assms(1) by simp
  ultimately show ?thesis by (simp add: applyDiff_def)
qed

lemma keys_foldl_applyChange:
  "fst ` set (snd (foldl applyChange st currentDiff)) =
     fst ` set (snd st) \<union> lineNumber ` {c \<in> set currentDiff. added c}"
proof (induction currentDiff arbitrary: st)
  case Nil
  show ?case by simp
next
  case (Cons c cs)
  have "fst ` set (snd (applyChange st c)) =
      fst ` set (snd st) \<union> (if added c then {lineNumber c} else {})"
    by (simp add: applyChange_def keys_pushPatch)
  then show ?case
    using Cons[of "applyChange st c"] by auto
qed

lemma distinct_foldl_applyChange:
  "distinct (map fst (snd st)) \<Longrightarrow> distinct (map fst (snd (foldl applyChange st currentDiff)))"
proof (induction currentDiff arbitrary: st)
  case Nil
  then show ?case by simp
next
  case (Cons c cs)
  have "distinct (map fst (snd (applyChange st c)))"
    using Cons.prems unfolding applyChange_def by (auto simp: map_fst_pushPatch)
  from Cons.IH[OF this] show ?case by simp
qed

lemma changesAt_foldl_applyChange:
  "changesAt (snd (foldl applyChange st currentDiff)) k =
     changesAt (snd st) k @ insertedAt k currentDiff"
proof (induction currentDiff arbitrary: st)
  case Nil
  show ?case by (simp add: insertedAt_def)
next
  case (Cons c cs)
  have "changesAt (snd (applyChange st c)) k =
      changesAt (snd st) k @ (if added c \<and> lineNumber c = k then [c] else [])"
    unfolding applyChange_def by (auto simp: changesAt_pushPatch)
  then show ?case
    using Cons[of "applyChange st c"] by (simp add: insertedAt_def)
qed

lemma modifiedAt_foldl_applyChange:
  "modifiedAt (snd (foldl applyChange st currentDiff)) k = modifiedAt (snd st) k"
proof (induction currentDiff arbitrary: st)
  case Nil
  show ?case by simp
next
  case (Cons c cs)
  have "modifiedAt (snd (applyChange st c)) k = modifiedAt (snd st) k"
    unfolding applyChange_def by (auto simp: modifiedAt_pushPatch)
  then show ?case
    using Cons[of "applyChange st c"] by simp
qed

lemma foldl_bump:
  "map fst (foldl bumpModifyLength patchTable ms) = map fst patchTable
   \<and> changesAt (foldl bumpModifyLength patchTable ms) k = changesAt patchTable k
   \<and> (distinct ms \<longrightarrow> modifiedAt (foldl bumpModifyLength patchTable ms) k =
        modifiedAt patchTable k + (if k \<in> set ms \<and> k \<in> fst ` set patchTable then 1 else 0))"
proof (induction ms arbitrary: patchTable)
  case Nil
  show ?case by simp
next
  case (Cons m ms)
  have keys: "fst ` set (bumpModifyLength patchTable m) = fst ` set patchTable"
    using map_fst_bump[of patchTable m] by (metis set_map)
  show ?case
    using Cons[of "bumpModifyLength patchTable m"]
    by (auto simp: map_fst_bump changesAt_bump modifiedAt_bump keys)
qed

lemma applyDiff_table:
  "fst ` set (snd (applyDiff st currentDiff)) =
     fst ` set (snd st) \<union> lineNumber ` {c \<in> set currentDiff. added c}"
  "distinct (map fst (snd st)) \<Longrightarrow> distinct (map fst (snd (applyDiff st currentDiff)))"
  "changesAt (snd (applyDiff st currentDiff)) k = changesAt (snd st) k @ insertedAt k currentDiff"
  "modifiedAt (snd (applyDiff st currentDiff)) k =
     modifiedAt (snd st) k + (if insertedAt k currentDiff \<noteq> [] then 1 else 0)"
proof -
  let ?st1 = "foldl applyChange st currentDiff"
  let ?ms = "uniq (map lineNumber (filter added currentDiff))"
  have snd_eq: "snd (applyDiff st currentDiff) = foldl bumpModifyLength (snd ?st1) ?ms"
    by (simp add: applyDiff_def Let_def)
  have keys: "map fst (snd (applyDiff st currentDiff)) = map fst (snd ?st1)"
    unfolding snd_eq using foldl_bump[of "snd ?st1" ?ms k] by simp
  then have "fst ` set (snd (applyDiff st currentDiff)) = fst ` set (snd ?st1)"
    by (metis set_map)
  then show "fst ` set (snd (applyDiff st currentDiff)) =
     fst ` set (snd st) \<union> lineNumber ` {c \<in> set currentDiff. added c}"
    by (simp only: keys_foldl_applyChange)
  show "distinct (map fst (snd st)) \<Longrightarrow> distinct (map fst (snd (applyDiff st currentDiff)))"
    unfolding keys by (rule distinct_foldl_applyChange)
  show "changesAt (snd (applyDiff st currentDiff)) k = changesAt (snd st) k @ insertedAt k currentDiff"
    unfolding snd_eq using foldl_bump[of "snd ?st1" ?ms k]
    by (simp add: changesAt_foldl_applyChange)
  have ins: "(insertedAt k currentDiff \<noteq> []) = (k \<in> lineNumber ` {c \<in> set currentDiff. added c})"
    by (auto simp: insertedAt_def filter_empty_conv)
  have "modifiedAt (snd (applyDiff st currentDiff)) k =
      modifiedAt (snd ?st1) k + (if k \<in> set ?ms \<and> k \<in> fst ` set (snd ?st1) then 1 else 0)"
    unfolding snd_eq using foldl_bump[of "snd ?st1" ?ms k] distinct_uniq[of "map lineNumber (filter added currentDiff)"]
    by blast
  moreover have "(k \<in> set ?ms \<and> k \<in> fst ` set (snd ?st1)) = (insertedAt k currentDiff \<noteq> [])"
    unfolding ins keys_foldl_applyChange set_uniq by auto
  ultimately show "modifiedAt (snd (applyDiff st currentDiff)) k =
     modifiedAt (snd st) k + (if insertedAt k currentDiff \<noteq> [] then 1 else 0)"
    by (simp add: modifiedAt_foldl_applyChange)
qed

subsection \<open>All overlays\<close>

lemma foldl_applyDiff_table:
  "fst ` set (snd (foldl applyDiff st overlays)) =
     fst ` set (snd st) \<union> (\<Union>currentDiff \<in> set overlays. lineNumber ` {c \<in> set currentDiff. added c})"
  "distinct (map fst (snd st)) \<Longrightarrow> distinct (map fst (snd (foldl applyDiff st overlays)))"
  "changesAt (snd (foldl applyDiff st overlays)) k =
     changesAt (snd st) k @ concat (map (insertedAt k) overlays)"
  "modifiedAt (snd (foldl applyDiff st overlays)) k =
     modifiedAt (snd st) k + length (filter (\<lambda>currentDiff. insertedAt k currentDiff \<noteq> []) overlays)"
proof (induction overlays arbitrary: st)
  case Nil
  {
    case 1 show ?case by simp
  next
    case 2 then show ?case by simp
  next
    case 3 show ?case by simp
  next
    case 4 show ?case by simp
  }
next
  case (Cons currentDiff overlays)
  {
    case 1
    show ?case
      using Cons.IH(1)[of "applyDiff st currentDiff"] applyDiff_table(1)[of st currentDiff]
      by auto
  next
    case 2
    then show ?case
      using Cons.IH(2)[of "applyDiff st currentDiff"] applyDiff_table(2)[of st currentDiff]
      by simp
  next
    case 3
    show ?case
      using Cons.IH(3)[of "applyDiff st currentDiff"] applyDiff_table(3)[of st currentDiff k]
      by simp
  next
    case 4
    show ?case
      using Cons.IH(4)[of "applyDiff st currentDiff"] applyDiff_table(4)[of st currentDiff k]
      by simp
  }
qed

subsection \<open>The order of the keys and the final reduction\<close>

lemma set_objectEntries: "set (objectEntries patchTable) = set patchTable"
  by (auto simp: objectEntries_def)

lemma length_sliceBlocks: "length (sliceBlocks originalDiff lineNumbers) = length lineNumbers"
  by (induction originalDiff lineNumbers rule: sliceBlocks.induct) auto

lemma reduceBlocks_acc:
  "reduceBlocks acc blocks patches = acc @ reduceBlocks [] blocks patches"
proof (induction blocks arbitrary: acc patches)
  case Nil
  show ?case by simp
next
  case (Cons b bs)
  show ?case
  proof (cases patches)
    case Nil
    have "reduceBlocks acc (b # bs) [] = (acc @ b) @ reduceBlocks [] bs []"
      using Cons.IH[of "acc @ b" "[]"] by simp
    moreover have "reduceBlocks [] (b # bs) [] = b @ reduceBlocks [] bs []"
      using Cons.IH[of b "[]"] by simp
    ultimately show ?thesis unfolding Nil by simp
  next
    case (Cons p ps)
    have "reduceBlocks acc (b # bs) (p # ps) =
        (acc @ b @ map Line (changes p)) @ reduceBlocks [] bs ps"
      using Cons.IH[of "acc @ b @ map Line (changes p)" ps] by simp
    moreover have "reduceBlocks [] (b # bs) (p # ps) =
        (b @ map Line (changes p)) @ reduceBlocks [] bs ps"
      using Cons.IH[of "b @ map Line (changes p)" ps] by simp
    ultimately show ?thesis unfolding Cons by simp
  qed
qed

lemma reduceBlocks_Cons:
  "reduceBlocks [] (b # bs) (p # ps) = b @ map Line (changes p) @ reduceBlocks [] bs ps"
  "reduceBlocks [] (b # bs) [] = b @ reduceBlocks [] bs []"
  using reduceBlocks_acc[of "b @ map Line (changes p)" bs ps] reduceBlocks_acc[of b bs "[]"]
  by simp_all

lemma reduceBlocks_patches:
  "length patches < length blocks \<Longrightarrow> p \<in> set patches \<Longrightarrow> c \<in> set (changes p) \<Longrightarrow>
   Line c \<in> set (reduceBlocks [] blocks patches)"
proof (induction blocks arbitrary: patches)
  case Nil
  then show ?case by simp
next
  case (Cons b bs)
  then obtain q qs where patches: "patches = q # qs"
    by (cases patches) auto
  show ?case
  proof (cases "p = q")
    case True
    with Cons.prems show ?thesis unfolding patches reduceBlocks_Cons by auto
  next
    case False
    with Cons.prems have "p \<in> set qs" "length qs < length bs"
      unfolding patches by auto
    from Cons.IH[OF this(2) this(1) Cons.prems(3)] show ?thesis
      unfolding patches reduceBlocks_Cons by simp
  qed
qed

subsection \<open>Empty inputs\<close>

lemma foldl_applyDiff_noop:
  assumes "\<forall>currentDiff \<in> set overlays. \<forall>c \<in> set currentDiff.
      \<not> added c \<and> (removed c \<longrightarrow> \<not> isArrayIndex (lineNumber c))"
  shows "foldl applyDiff st overlays = st"
  using assms
proof (induction overlays arbitrary: st)
  case Nil
  show ?case by simp
next
  case (Cons currentDiff overlays)
  have idle: "\<forall>c \<in> set currentDiff. \<not> added c \<and> (removed c \<longrightarrow> \<not> isArrayIndex (lineNumber c))"
    using Cons.prems by simp
  have "foldl applyChange s cs = s"
    if "\<forall>c \<in> set cs. \<not> added c \<and> (removed c \<longrightarrow> \<not> isArrayIndex (lineNumber c))" for cs s
    using that
  proof (induction cs arbitrary: s)
    case Nil
    show ?case by simp
  next
    case (Cons c cs)
    then have "applyChange s c = s"
      using applyChange_noop[of c s] by auto
    with Cons show ?case by simp
  qed
  from this[OF idle] have 1: "foldl applyChange st currentDiff = st" .
  have 2: "filter added currentDiff = []"
    using idle by (simp add: filter_empty_conv)
  have "applyDiff st currentDiff = st"
    by (simp add: applyDiff_def 1 2 uniq_def)
  with Cons show ?case by simp
qed

text \<open>
  C5, as the code has it. With no overlays the baseline is returned as it is, and a
  null baseline gives the empty list. The test \<open>!originalChanges\<close> does not catch
  an empty array: for an empty baseline the result is empty when no overlay has an
  added change, nor a removed change at an array index.
\<close>

theorem merge_empty_inputs:
  "merge (Some original) None = map Line original
   \<and> merge (Some original) (Some []) = map Line original
   \<and> merge None diffList = []
   \<and> ((\<forall>currentDiff \<in> set overlays. \<forall>c \<in> set currentDiff.
          \<not> added c \<and> (removed c \<longrightarrow> \<not> isArrayIndex (lineNumber c)))
        \<longrightarrow> merge (Some []) (Some overlays) = [])"
proof -
  have "merge (Some []) (Some overlays) = []"
    if idle: "\<forall>currentDiff \<in> set overlays. \<forall>c \<in> set currentDiff.
          \<not> added c \<and> (removed c \<longrightarrow> \<not> isArrayIndex (lineNumber c))"
  proof (cases "overlays = []")
    case True
    then show ?thesis by (simp add: merge_def)
  next
    case False
    have "foldl applyDiff (map Line [], []) overlays = ([], [])"
      using foldl_applyDiff_noop[OF idle, of "([], [])"] by simp
    with False show ?thesis
      by (simp add: merge_def objectEntries_def slice_from_def)
  qed
  then show ?thesis
    by (simp add: merge_def)
qed

theorem merge_empty_inputs_witness:
  "\<not> added \<lparr>val = ''a'' @ [newline], added = False, removed = False, lineNumber = 0,
             conflicted = False, conflictGroup = None\<rparr>
   \<and> \<not> removed \<lparr>val = ''a'' @ [newline], added = False, removed = False, lineNumber = 0,
             conflicted = False, conflictGroup = None\<rparr>
   \<and> merge (Some [])
        (Some [[\<lparr>val = ''a'' @ [newline], added = False, removed = False, lineNumber = 0,
                 conflicted = False, conflictGroup = None\<rparr>]]) = []"
  using merge_empty_inputs[of "[]" None
      "[[\<lparr>val = ''a'' @ [newline], added = False, removed = False, lineNumber = 0,
          conflicted = False, conflictGroup = None\<rparr>]]"]
  by simp

theorem merge_empty_inputs_counterexample:
  "merge (Some [])
     (Some [[\<lparr>val = ''x'' @ [newline], added = True, removed = False, lineNumber = -1,
              conflicted = False, conflictGroup = None\<rparr>]])
   = [Line \<lparr>val = ''x'' @ [newline], added = True, removed = False, lineNumber = -1,
            conflicted = False, conflictGroup = None\<rparr>]"
  by (simp add: merge_def applyDiff_def applyChange_def pushPatch_def uniq_def
      bumpModifyLength_def markConflicts_def objectEntries_def isArrayIndex_def
      slice_def slice_from_def relativeIndex_def)

subsection \<open>Changes outside the baseline\<close>

lemma merge_Some:
  "overlays \<noteq> [] \<Longrightarrow>
   merge (Some original) (Some overlays) =
     reduceBlocks []
       (sliceBlocks (fst (foldl applyDiff (map Line original, []) overlays))
          ((-1) # map fst (objectEntries (map (\<lambda>(k, item). (k, markConflicts item))
                                           (snd (foldl applyDiff (map Line original, []) overlays))))))
       (map snd (objectEntries (map (\<lambda>(k, item). (k, markConflicts item))
                                  (snd (foldl applyDiff (map Line original, []) overlays)))))"
  by (simp add: merge_def Let_def)

lemma changesAt_mem:
  "c \<in> set (changesAt patchTable k) \<Longrightarrow>
   \<exists>item. map_of patchTable k = Some item \<and> c \<in> set (changes item)"
  by (cases "map_of patchTable k") (simp_all add: changesAt_def)

lemma merge_carries_patches:
  assumes "overlays \<noteq> []"
    and "map_of (snd (foldl applyDiff (map Line original, []) overlays)) k = Some item"
    and "c \<in> set (changes (markConflicts item))"
  shows "Line c \<in> set (merge (Some original) (Some overlays))"
proof -
  let ?pt = "snd (foldl applyDiff (map Line original, []) overlays)"
  let ?entries = "objectEntries (map (\<lambda>(k, item). (k, markConflicts item)) ?pt)"
  have "(k, item) \<in> set ?pt"
    using assms(2) by (rule map_of_SomeD)
  then have "(k, markConflicts item) \<in> set ?entries"
    unfolding set_objectEntries by force
  then have p: "markConflicts item \<in> set (map snd ?entries)"
    by force
  have len: "length (map snd ?entries) <
      length (sliceBlocks (fst (foldl applyDiff (map Line original, []) overlays))
                ((-1) # map fst ?entries))"
    by (simp add: length_sliceBlocks)
  show ?thesis
    unfolding merge_Some[OF assms(1)]
    by (rule reduceBlocks_patches[OF len p assms(3)])
qed

text \<open>
  C6, as the code has it. An overlay change that is not added is dropped when it is
  not removed either, or when its line number is not an array index (negative, for
  one): the result is the result without it. An added change is never dropped,
  whatever its line number: it is in the result, as it is or marked as a conflict.
\<close>

theorem merge_out_of_range:
  "(\<not> added c \<and> (\<not> removed c \<or> \<not> isArrayIndex (lineNumber c)) \<longrightarrow>
      merge originalChanges (Some (before @ [o1 @ c # o2] @ after))
        = merge originalChanges (Some (before @ [o1 @ o2] @ after)))
   \<and> (added c \<and> originalChanges \<noteq> None \<longrightarrow>
        Line c \<in> set (merge originalChanges (Some (before @ [o1 @ c # o2] @ after)))
        \<or> Line (c\<lparr>conflicted := True, conflictGroup := Some Current\<rparr>)
             \<in> set (merge originalChanges (Some (before @ [o1 @ c # o2] @ after))))"
proof (intro conjI impI)
  assume drop: "\<not> added c \<and> (\<not> removed c \<or> \<not> isArrayIndex (lineNumber c))"
  have eq: "foldl applyDiff st (before @ [o1 @ c # o2] @ after)
      = foldl applyDiff st (before @ [o1 @ o2] @ after)" for st
    using drop by (simp add: applyDiff_drop)
  show "merge originalChanges (Some (before @ [o1 @ c # o2] @ after))
      = merge originalChanges (Some (before @ [o1 @ o2] @ after))"
  proof (cases originalChanges)
    case None
    then show ?thesis by (simp add: merge_def)
  next
    case (Some original)
    have ne: "before @ [o1 @ c # o2] @ after \<noteq> []" "before @ [o1 @ o2] @ after \<noteq> []"
      by simp_all
    show ?thesis
      unfolding Some merge_Some[OF ne(1)] merge_Some[OF ne(2)] eq ..
  qed
next
  assume "added c \<and> originalChanges \<noteq> None"
  then obtain original where orig: "originalChanges = Some original" and a: "added c"
    by auto
  let ?overlays = "before @ [o1 @ c # o2] @ after"
  let ?pt = "snd (foldl applyDiff (map Line original, []) ?overlays)"
  have ne: "?overlays \<noteq> []" by simp
  have "changesAt ?pt (lineNumber c) = concat (map (insertedAt (lineNumber c)) ?overlays)"
    using foldl_applyDiff_table(3)[of "(map Line original, [])" ?overlays "lineNumber c"]
    by (simp add: changesAt_def)
  moreover have "c \<in> set (concat (map (insertedAt (lineNumber c)) ?overlays))"
    using a by (simp add: insertedAt_def)
  ultimately have "c \<in> set (changesAt ?pt (lineNumber c))"
    by simp
  then obtain item where item: "map_of ?pt (lineNumber c) = Some item" and c: "c \<in> set (changes item)"
    using changesAt_mem by blast
  have "c \<in> set (changes (markConflicts item))
      \<or> c\<lparr>conflicted := True, conflictGroup := Some Current\<rparr> \<in> set (changes (markConflicts item))"
    using c by (auto simp: markConflicts_def)
  then show "Line c \<in> set (merge originalChanges (Some ?overlays))
        \<or> Line (c\<lparr>conflicted := True, conflictGroup := Some Current\<rparr>)
             \<in> set (merge originalChanges (Some ?overlays))"
    unfolding orig using merge_carries_patches[OF ne item] by blast
qed

theorem merge_out_of_range_witness:
  "\<not> added \<lparr>val = ''r'' @ [newline], added = False, removed = True, lineNumber = -1,
             conflicted = False, conflictGroup = None\<rparr>
   \<and> \<not> isArrayIndex (-1)
   \<and> merge (Some [\<lparr>val = ''a'' @ [newline], added = False, removed = False, lineNumber = 0,
                    conflicted = False, conflictGroup = None\<rparr>])
        (Some [[\<lparr>val = ''r'' @ [newline], added = False, removed = True, lineNumber = -1,
                 conflicted = False, conflictGroup = None\<rparr>]])
     = merge (Some [\<lparr>val = ''a'' @ [newline], added = False, removed = False, lineNumber = 0,
                      conflicted = False, conflictGroup = None\<rparr>])
        (Some [[]])
   \<and> added \<lparr>val = ''x'' @ [newline], added = True, removed = False, lineNumber = 5,
             conflicted = False, conflictGroup = None\<rparr>
   \<and> Line \<lparr>val = ''x'' @ [newline], added = True, removed = False, lineNumber = 5,
             conflicted = False, conflictGroup = None\<rparr>
       \<in> set (merge (Some [\<lparr>val = ''a'' @ [newline], added = False, removed = False, lineNumber = 0,
                             conflicted = False, conflictGroup = None\<rparr>])
                 (Some [[\<lparr>val = ''x'' @ [newline], added = True, removed = False, lineNumber = 5,
                          conflicted = False, conflictGroup = None\<rparr>]]))"
proof -
  let ?a = "\<lparr>val = ''a'' @ [newline], added = False, removed = False, lineNumber = 0,
             conflicted = False, conflictGroup = None\<rparr>"
  let ?r = "\<lparr>val = ''r'' @ [newline], added = False, removed = True, lineNumber = -1,
             conflicted = False, conflictGroup = None\<rparr>"
  let ?x = "\<lparr>val = ''x'' @ [newline], added = True, removed = False, lineNumber = 5,
             conflicted = False, conflictGroup = None\<rparr>"
  have conflict_free: "Line (?x\<lparr>conflicted := True, conflictGroup := Some Current\<rparr>)
      \<notin> set (merge (Some [?a]) (Some [[?x]]))"
    by (simp add: merge_def applyDiff_def applyChange_def pushPatch_def uniq_def
        bumpModifyLength_def markConflicts_def objectEntries_def isArrayIndex_def
        slice_def slice_from_def relativeIndex_def)
  show ?thesis
    using merge_out_of_range[of ?r "Some [?a]" "[]" "[]" "[]" "[]"]
      merge_out_of_range[of ?x "Some [?a]" "[]" "[]" "[]" "[]"] conflict_free
    by (simp add: isArrayIndex_def)
qed

theorem merge_out_of_range_counterexample:
  "merge (Some [\<lparr>val = ''a'' @ [newline], added = False, removed = False, lineNumber = 0,
                  conflicted = False, conflictGroup = None\<rparr>])
     (Some [[\<lparr>val = ''x'' @ [newline], added = True, removed = False, lineNumber = 5,
              conflicted = False, conflictGroup = None\<rparr>]])
   = [Line \<lparr>val = ''a'' @ [newline], added = False, removed = False, lineNumber = 0,
            conflicted = False, conflictGroup = None\<rparr>,
      Line \<lparr>val = ''x'' @ [newline], added = True, removed = False, lineNumber = 5,
            conflicted = False, conflictGroup = None\<rparr>]
   \<and> merge (Some [\<lparr>val = ''a'' @ [newline], added = False, removed = False, lineNumber = 0,
                    conflicted = False, conflictGroup = None\<rparr>])
       (Some [[]])
   = [Line \<lparr>val = ''a'' @ [newline], added = False, removed = False, lineNumber = 0,
            conflicted = False, conflictGroup = None\<rparr>]"
  by (simp add: merge_def applyDiff_def applyChange_def pushPatch_def uniq_def
      bumpModifyLength_def markConflicts_def objectEntries_def isArrayIndex_def
      slice_def slice_from_def relativeIndex_def)

section \<open>Properties of the conflict resolution\<close>

lemma conflict_item_in_table:
  assumes "item \<in> set (getConflictedFileDataList table)"
  shows "\<exists>bs. (pathname item, bs) \<in> set table \<and> index item < length bs
           \<and> status (bs ! index item) = CONFLICT \<and> \<not> ignored (bs ! index item)"
proof -
  from assms obtain e where e: "e \<in> set table"
      and item: "item \<in> set (case e of (p, mergeBlocks) \<Rightarrow>
                   map (\<lambda>(i, mergeBlock). \<lparr>pathname = p, index = i\<rparr>)
                     (filter (\<lambda>(i, mergeBlock). status mergeBlock = CONFLICT \<and> \<not> ignored mergeBlock)
                        (zip [0..<length mergeBlocks] mergeBlocks)))"
    unfolding getConflictedFileDataList_def set_concat set_map by blast
  obtain p bs where pbs: "e = (p, bs)" by (cases e)
  from item obtain ib where ib: "ib \<in> set (zip [0..<length bs] bs)"
      and conflict: "status (snd ib) = CONFLICT \<and> \<not> ignored (snd ib)"
      and item_eq: "item = \<lparr>pathname = p, index = fst ib\<rparr>"
    unfolding pbs by (auto simp: split_def)
  from ib obtain n where "[0..<length bs] ! n = fst ib" "bs ! n = snd ib" "n < length bs"
    unfolding in_set_zip by auto
  then have "fst ib < length bs \<and> snd ib = bs ! fst ib"
    by auto
  with e conflict item_eq show ?thesis unfolding pbs by auto
qed

lemma distinct_foldl_assign:
  "distinct (map fst acc) \<Longrightarrow>
   distinct (map fst (foldl (\<lambda>result (p, x). assign result p (f p x)) acc xs))"
proof (induction xs arbitrary: acc)
  case Nil
  then show ?case by simp
next
  case (Cons x xs)
  obtain p v where x: "x = (p, v)" by (cases x)
  show ?case
    unfolding x using Cons.IH[OF distinct_assign[OF Cons.prems, of p "f p v"]] by simp
qed

lemma map_of_foldl_assign:
  "distinct (map fst xs) \<Longrightarrow>
   map_of (foldl (\<lambda>result (p, x). assign result p (f p x)) acc xs) k =
     (case map_of xs k of Some x \<Rightarrow> Some (f k x) | None \<Rightarrow> map_of acc k)"
proof (induction xs arbitrary: acc)
  case Nil
  show ?case by simp
next
  case (Cons x xs)
  obtain p v where x: "x = (p, v)" by (cases x)
  from Cons.prems have d: "distinct (map fst xs)" and p: "p \<notin> fst ` set xs"
    unfolding x by auto
  from p have none: "map_of xs p = None"
    by (simp add: map_of_eq_None_iff)
  show ?case
    unfolding x using Cons.IH[OF d, of "assign acc p (f p v)"] none
    by (simp add: map_of_assign split: option.splits)
qed

lemma files_text:
  assumes "distinct (map fst (mergeTable this))" "map_of (mergeTable this) p = Some bs"
  shows "map_of (files (getResult this)) p = Some (Text (parseMergeBlocksToText bs))"
proof -
  let ?texts = "foldl (\<lambda>result (p, mergeBlocks). assign result p (Text (parseMergeBlocksToText mergeBlocks)))
                  [] (mergeTable this)"
  have texts: "map_of ?texts p = Some (Text (parseMergeBlocksToText bs))"
    using map_of_foldl_assign[OF assms(1), of "\<lambda>p x. Text (parseMergeBlocksToText x)" "[]" p] assms(2)
    by simp
  have "distinct (map fst ?texts)"
    using distinct_foldl_assign[of "[]" "\<lambda>p x. Text (parseMergeBlocksToText x)" "mergeTable this"]
    by simp
  from map_of_foldl_assign[OF this, of "\<lambda>p x. x" _ p] texts show ?thesis
    by (simp add: getResult_def)
qed

lemma toText_update:
  assumes "i < length bs" "status b = CONFLICT"
  shows "parseMergeBlocksToText (bs[i := b]) =
     parseMergeBlocksToText (take i bs)
       @ ''<<<<<<< former'' @ [newline] @ concat (former (blockValues b))
       @ ''======='' @ [newline] @ concat (current (blockValues b))
       @ ''>>>>>>> current'' @ [newline]
       @ parseMergeBlocksToText (drop (Suc i) bs)"
proof -
  have "bs[i := b] = take i bs @ [b] @ drop (Suc i) bs"
    using assms(1) by (simp add: upd_conv_take_nth_drop)
  moreover have "parseMergeBlocksToText [b] =
      ''<<<<<<< former'' @ [newline] @ concat (former (blockValues b))
       @ ''======='' @ [newline] @ concat (current (blockValues b))
       @ ''>>>>>>> current'' @ [newline]"
    using assms(2) by (simp add: parseMergeBlocksToText_def appendBlockText_def)
  ultimately show ?thesis
    by (simp only: toText_append append_assoc)
qed

lemma resolveStep_keeps_block:
  assumes d: "distinct (map fst table)"
    and entry: "map_of table (pathname item) = Some mergeBlocks"
    and block: "map_of table p = Some bs \<and> i < length bs \<and> bs ! i = B"
    and other: "\<lparr>pathname = p, index = i\<rparr> \<notin> set (item # rest)"
  shows "distinct (map fst (snd (resolveStep r item rest mergeBlocks table)))"
    and "\<exists>bs'. map_of (snd (resolveStep r item rest mergeBlocks table)) p = Some bs'
           \<and> i < length bs' \<and> bs' ! i = B"
    and "\<lparr>pathname = p, index = i\<rparr> \<notin> set (fst (resolveStep r item rest mergeBlocks table))"
proof -
  show "distinct (map fst (snd (resolveStep r item rest mergeBlocks table)))"
    using d by (cases r) (simp_all add: resolveStep_def distinct_assign)
  show "\<lparr>pathname = p, index = i\<rparr> \<notin> set (fst (resolveStep r item rest mergeBlocks table))"
    using other by (cases r) (simp_all add: resolveStep_def)
  have differs: "pathname item \<noteq> p \<or> index item \<noteq> i"
    using other by (cases item) auto
  have upd: "\<exists>bs'. map_of (assign table (pathname item) (mergeBlocks[index item := b])) p = Some bs'
           \<and> i < length bs' \<and> bs' ! i = B" for b
  proof (cases "pathname item = p")
    case True
    with entry block have "mergeBlocks = bs" by simp
    moreover from True differs have "index item \<noteq> i" by simp
    ultimately show ?thesis using True block by (simp add: map_of_assign)
  next
    case False
    then show ?thesis using block by (simp add: map_of_assign)
  qed
  show "\<exists>bs'. map_of (snd (resolveStep r item rest mergeBlocks table)) p = Some bs'
           \<and> i < length bs' \<and> bs' ! i = B"
    using upd block by (cases r) (simp_all add: resolveStep_def)
qed

lemma resolveLoop_keeps_block:
  assumes run: "resolveLoop conflictsSolver totalConflicts calls remained table = Some (Inr final)"
    and d: "distinct (map fst table)"
    and block: "map_of table p = Some bs \<and> i < length bs \<and> bs ! i = B"
    and other: "\<lparr>pathname = p, index = i\<rparr> \<notin> set remained"
  shows "distinct (map fst final)
       \<and> (\<exists>bs'. map_of final p = Some bs' \<and> i < length bs' \<and> bs' ! i = B)"
proof -
  let ?P = "\<lambda>(solver :: nat \<Rightarrow> SolverContext \<Rightarrow> SolverResult)
              (total :: ConflictBlockMetadata list) (calls :: nat) remained table (y :: error + MergeTable).
      \<forall>bs. y = Inr final \<longrightarrow> distinct (map fst table)
        \<longrightarrow> (map_of table p = Some bs \<and> i < length bs \<and> bs ! i = B)
        \<longrightarrow> \<lparr>pathname = p, index = i\<rparr> \<notin> set remained
        \<longrightarrow> distinct (map fst final)
            \<and> (\<exists>bs'. map_of final p = Some bs' \<and> i < length bs' \<and> bs' ! i = B)"
  have step: "?P solver total calls remained table y"
    if IH: "\<And>solver total calls remained table y.
        loop solver total calls remained table = Some y \<Longrightarrow> ?P solver total calls remained table y"
      and body: "(case remained of [] \<Rightarrow> Some (Inr table)
          | item # rest \<Rightarrow>
              (case map_of table (pathname item) of None \<Rightarrow> Some (Inl TypeError)
               | Some mergeBlocks \<Rightarrow>
                  loop solver total (calls + 1)
                   (fst (resolveStep (solver calls (solverContext total item mergeBlocks))
                          item rest mergeBlocks table))
                   (snd (resolveStep (solver calls (solverContext total item mergeBlocks))
                          item rest mergeBlocks table)))) = Some y"
    for loop solver total calls remained table y
  proof (intro allI impI)
    fix bs
    assume y: "y = Inr final" and d: "distinct (map fst table)"
      and block: "map_of table p = Some bs \<and> i < length bs \<and> bs ! i = B"
      and other: "\<lparr>pathname = p, index = i\<rparr> \<notin> set remained"
    show "distinct (map fst final)
        \<and> (\<exists>bs'. map_of final p = Some bs' \<and> i < length bs' \<and> bs' ! i = B)"
    proof (cases remained)
      case Nil
      with body y have "final = table" by simp
      with block d show ?thesis by blast
    next
      case (Cons item rest)
      show ?thesis
      proof (cases "map_of table (pathname item)")
        case None
        with body Cons y show ?thesis by simp
      next
        case (Some mergeBlocks)
        let ?step = "resolveStep (solver calls (solverContext total item mergeBlocks))
                       item rest mergeBlocks table"
        from body Cons Some have run': "loop solver total (calls + 1) (fst ?step) (snd ?step) = Some y"
          by simp
        from other Cons have other': "\<lparr>pathname = p, index = i\<rparr> \<notin> set (item # rest)"
          by simp
        from resolveStep_keeps_block(2)[OF d Some block other'] obtain bs1 where
          b1: "map_of (snd ?step) p = Some bs1 \<and> i < length bs1 \<and> bs1 ! i = B"
          by blast
        from IH[OF run'] y
          resolveStep_keeps_block(1)[OF d Some block other']
          resolveStep_keeps_block(3)[OF d Some block other'] b1
        show ?thesis by blast
      qed
    qed
  qed
  have "?P conflictsSolver totalConflicts calls remained table (Inr final)"
  proof (rule resolveLoop.raw_induct[where P = ?P, OF _ run])
    fix loop solver total calls remained table y
    assume "\<And>solver total calls remained table y.
        loop solver total calls remained table = Some y \<Longrightarrow> ?P solver total calls remained table y"
      and "(case remained of [] \<Rightarrow> Some (Inr table)
          | item # rest \<Rightarrow>
              (case map_of table (pathname item) of None \<Rightarrow> Some (Inl TypeError)
               | Some mergeBlocks \<Rightarrow>
                  loop solver total (calls + 1)
                   (fst (resolveStep (solver calls (solverContext total item mergeBlocks))
                          item rest mergeBlocks table))
                   (snd (resolveStep (solver calls (solverContext total item mergeBlocks))
                          item rest mergeBlocks table)))) = Some y"
    then show "?P solver total calls remained table y"
      by (rule step)
  qed
  with d block other show ?thesis by blast
qed


text \<open>Without a solver \<open>resolveConflicts\<close> returns at once and changes nothing.\<close>

lemma resolveConflicts_without_solver: "resolveConflicts None this = Some (Inr this)"
  by (simp add: resolveConflicts_def)

text \<open>
  One turn of the loop, and the loop on an empty work list.
\<close>

lemma resolveLoop_Nil: "resolveLoop solver totalConflicts calls [] table = Some (Inr table)"
  by (subst resolveLoop.simps) simp

lemma resolveLoop_Cons:
  assumes "map_of table (pathname item) = Some mergeBlocks"
  shows "resolveLoop solver totalConflicts calls (item # rest) table =
     resolveLoop solver totalConflicts (calls + 1)
       (fst (resolveStep (solver calls (solverContext totalConflicts item mergeBlocks))
               item rest mergeBlocks table))
       (snd (resolveStep (solver calls (solverContext totalConflicts item mergeBlocks))
               item rest mergeBlocks table))"
  using assms by (subst resolveLoop.simps) simp

lemma keys_resolveStep:
  assumes "map_of table (pathname item) = Some mergeBlocks"
  shows "fst ` set (snd (resolveStep r item rest mergeBlocks table)) = fst ` set table"
proof -
  from assms have "(pathname item, mergeBlocks) \<in> set table"
    by (rule map_of_SomeD)
  then have "pathname item \<in> fst ` set table"
    by force
  then show ?thesis
    by (cases r) (auto simp: resolveStep_def keys_assign)
qed

text \<open>
  The loop returns, and raises nothing, when the solver stops answering \<open>null\<close> from
  some call on and every pathname of the work list has an entry in the table.
\<close>

lemma resolveLoop_returns:
  assumes ends: "\<forall>n ctx. N \<le> n \<longrightarrow> solver n ctx \<noteq> Null"
    and keys: "pathname ` set remained \<subseteq> fst ` set table"
  shows "\<exists>final. resolveLoop solver totalConflicts calls remained table = Some (Inr final)"
  using keys
proof (induction "(N - calls) + length remained" arbitrary: calls remained table rule: less_induct)
  case less
  show ?case
  proof (cases remained)
    case Nil
    then show ?thesis by (simp add: resolveLoop_Nil)
  next
    case (Cons item rest)
    with less.prems have "pathname item \<in> fst ` set table"
      by simp
    then have "map_of table (pathname item) \<noteq> None"
      by (simp add: map_of_eq_None_iff)
    then obtain mergeBlocks where entry: "map_of table (pathname item) = Some mergeBlocks"
      by blast
    let ?r = "solver calls (solverContext totalConflicts item mergeBlocks)"
    let ?step = "resolveStep ?r item rest mergeBlocks table"
    have keys': "pathname ` set (fst ?step) \<subseteq> fst ` set (snd ?step)"
      unfolding keys_resolveStep[OF entry]
      using less.prems Cons by (cases ?r) (auto simp: resolveStep_def)
    have smaller: "(N - (calls + 1)) + length (fst ?step) < (N - calls) + length remained"
    proof (cases "?r = Null")
      case True
      with ends have "calls < N"
        by (metis not_le_imp_less)
      with True Cons show ?thesis
        by (simp add: resolveStep_def)
    next
      case False
      then have "fst ?step = rest"
        by (cases ?r) (simp_all add: resolveStep_def)
      with Cons show ?thesis by simp
    qed
    from less.hyps[OF smaller keys'] show ?thesis
      unfolding Cons resolveLoop_Cons[OF entry] .
  qed
qed

lemma work_keys:
  assumes "set remained \<subseteq> set (getConflictedFileDataList table)"
  shows "pathname ` set remained \<subseteq> fst ` set table"
proof
  fix p
  assume "p \<in> pathname ` set remained"
  then obtain r where r: "r \<in> set remained" and p: "p = pathname r"
    by blast
  from r assms have "r \<in> set (getConflictedFileDataList table)"
    by blast
  from conflict_item_in_table[OF this] obtain bs where "(pathname r, bs) \<in> set table"
    by blast
  then show "p \<in> fst ` set table"
    unfolding p by force
qed

lemma resolveLoop_step:
  "resolveLoop solver totalConflicts calls (item # rest) table =
     (case map_of table (pathname item) of
        None \<Rightarrow> Some (Inl TypeError)
      | Some mergeBlocks \<Rightarrow>
          resolveLoop solver totalConflicts (calls + 1)
            (fst (resolveStep (solver calls (solverContext totalConflicts item mergeBlocks))
                    item rest mergeBlocks table))
            (snd (resolveStep (solver calls (solverContext totalConflicts item mergeBlocks))
                    item rest mergeBlocks table)))"
  by (subst resolveLoop.simps) simp

text \<open>
  C4, as the code has it. Let the work list of the loop hold conflicts of the table,
  its first item not occurring again in the rest, let the solver answer \<open>'ignored'\<close>
  for the first item, and let the solver stop answering \<open>null\<close> from some call on.
  Then the loop returns. Its first turn sets \<open>ignored\<close> on that block and goes on with the rest of
  the list; in the final table the block has \<open>ignored\<close> set and its status and its
  values are as before, so the pathname is in \<open>conflicts\<close> of the result. The emitted
  text does not look at \<open>ignored\<close>: the block is rendered as the conflict fence
  around its two groups.
\<close>

theorem resolve_ignored:
  assumes d: "distinct (map fst table)"
    and work: "set (item # rest) \<subseteq> set (getConflictedFileDataList table)"
    and fresh: "item \<notin> set rest"
    and entry: "map_of table (pathname item) = Some mergeBlocks"
    and answer: "conflictsSolver calls (solverContext totalConflicts item mergeBlocks) = Ignored"
    and ends: "\<forall>n ctx. N \<le> n \<longrightarrow> conflictsSolver n ctx \<noteq> Null"
  shows "\<exists>final bs'.
         resolveLoop conflictsSolver totalConflicts calls (item # rest) table = Some (Inr final)
       \<and> resolveLoop conflictsSolver totalConflicts calls (item # rest) table
           = resolveLoop conflictsSolver totalConflicts (calls + 1) rest
               (assign table (pathname item)
                  (mergeBlocks[index item := (mergeBlocks ! index item)\<lparr>ignored := True\<rparr>]))
       \<and> map_of final (pathname item) = Some bs' \<and> index item < length bs'
       \<and> bs' ! index item = (mergeBlocks ! index item)\<lparr>ignored := True\<rparr>
       \<and> status (bs' ! index item) = CONFLICT
       \<and> blockValues (bs' ! index item) = blockValues (mergeBlocks ! index item)
       \<and> pathname item \<in> set (conflicts (getResult
            \<lparr>cacheTable = cache, mergeTable = final, binaryTable = binaries\<rparr>))
       \<and> map_of (files (getResult
            \<lparr>cacheTable = cache, mergeTable = final, binaryTable = binaries\<rparr>)) (pathname item)
           = Some (Text (parseMergeBlocksToText (take (index item) bs')
               @ ''<<<<<<< former'' @ [newline]
               @ concat (former (blockValues (mergeBlocks ! index item)))
               @ ''======='' @ [newline]
               @ concat (current (blockValues (mergeBlocks ! index item)))
               @ ''>>>>>>> current'' @ [newline]
               @ parseMergeBlocksToText (drop (Suc (index item)) bs')))"
proof -
  let ?p = "pathname item" and ?i = "index item"
  let ?B = "(mergeBlocks ! ?i)\<lparr>ignored := True\<rparr>"
  let ?table' = "assign table ?p (mergeBlocks[?i := ?B])"
  from work have "item \<in> set (getConflictedFileDataList table)"
    by simp
  from conflict_item_in_table[OF this] obtain bs where
      "(?p, bs) \<in> set table" and i: "?i < length bs" and c: "status (bs ! ?i) = CONFLICT"
    by blast
  with entry_map_of[OF d] entry have bs: "bs = mergeBlocks" by simp
  have step: "resolveStep Ignored item rest mergeBlocks table = (rest, ?table')"
    by (simp add: resolveStep_def)
  have unfold: "resolveLoop conflictsSolver totalConflicts calls (item # rest) table
      = resolveLoop conflictsSolver totalConflicts (calls + 1) rest ?table'"
    unfolding resolveLoop_Cons[OF entry] answer step by simp
  have st: "status ?B = CONFLICT"
    using c bs by simp
  have d': "distinct (map fst ?table')"
    using d by (rule distinct_assign)
  have block: "map_of ?table' ?p = Some (mergeBlocks[?i := ?B])
      \<and> ?i < length (mergeBlocks[?i := ?B]) \<and> (mergeBlocks[?i := ?B]) ! ?i = ?B"
    using i bs by (simp add: map_of_assign)
  have other: "\<lparr>pathname = ?p, index = ?i\<rparr> \<notin> set rest"
    using fresh by (cases item) simp
  have "pathname ` set rest \<subseteq> fst ` set table"
    using work_keys[of rest table] work by simp
  moreover have "fst ` set ?table' = fst ` set table"
    using keys_resolveStep[OF entry, of Ignored rest] by (simp add: step)
  ultimately have "pathname ` set rest \<subseteq> fst ` set ?table'"
    by simp
  from resolveLoop_returns[OF ends this] obtain final where
      run': "resolveLoop conflictsSolver totalConflicts (calls + 1) rest ?table' = Some (Inr final)"
    by blast
  from resolveLoop_keeps_block[OF run' d' block other] obtain bs' where
      df: "distinct (map fst final)" and f: "map_of final ?p = Some bs'"
      and i': "?i < length bs'" and b': "bs' ! ?i = ?B"
    by blast
  let ?result = "getResult \<lparr>cacheTable = cache, mergeTable = final, binaryTable = binaries\<rparr>"
  have "(?p, bs') \<in> set final"
    using f by (rule map_of_SomeD)
  moreover have "?B \<in> set bs'"
    using i' b' by (metis nth_mem)
  ultimately have "\<exists>bs. (?p, bs) \<in> set final \<and> (\<exists>b \<in> set bs. status b = CONFLICT)"
    using st by blast
  then have report: "?p \<in> set (conflicts ?result)"
    by (simp add: getResult_def conflict_pathnames)
  have "bs'[?i := ?B] = bs'"
    using b' by (metis list_update_id)
  with toText_update[OF i' st] have "parseMergeBlocksToText bs' =
      parseMergeBlocksToText (take ?i bs')
       @ ''<<<<<<< former'' @ [newline] @ concat (former (blockValues ?B))
       @ ''======='' @ [newline] @ concat (current (blockValues ?B))
       @ ''>>>>>>> current'' @ [newline]
       @ parseMergeBlocksToText (drop (Suc ?i) bs')"
    by simp
  moreover have "map_of (files ?result) ?p = Some (Text (parseMergeBlocksToText bs'))"
    using files_text[of "\<lparr>cacheTable = cache, mergeTable = final, binaryTable = binaries\<rparr>" ?p bs'] df f
    by simp
  ultimately have rendered: "map_of (files ?result) ?p =
      Some (Text (parseMergeBlocksToText (take ?i bs')
       @ ''<<<<<<< former'' @ [newline] @ concat (former (blockValues (mergeBlocks ! ?i)))
       @ ''======='' @ [newline] @ concat (current (blockValues (mergeBlocks ! ?i)))
       @ ''>>>>>>> current'' @ [newline]
       @ parseMergeBlocksToText (drop (Suc ?i) bs')))"
    by simp
  have run: "resolveLoop conflictsSolver totalConflicts calls (item # rest) table = Some (Inr final)"
    unfolding unfold by (rule run')
  show ?thesis
  proof (rule exI[of _ final], rule exI[of _ bs'], intro conjI)
    show "resolveLoop conflictsSolver totalConflicts calls (item # rest) table = Some (Inr final)"
      by (rule run)
    show "resolveLoop conflictsSolver totalConflicts calls (item # rest) table
           = resolveLoop conflictsSolver totalConflicts (calls + 1) rest ?table'"
      by (rule unfold)
    show "map_of final ?p = Some bs'" by (rule f)
    show "?i < length bs'" by (rule i')
    show "bs' ! ?i = ?B" by (rule b')
    show "status (bs' ! ?i) = CONFLICT" unfolding b' by (rule st)
    show "blockValues (bs' ! ?i) = blockValues (mergeBlocks ! ?i)" unfolding b' by simp
    show "?p \<in> set (conflicts ?result)" by (rule report)
    show "map_of (files ?result) ?p =
      Some (Text (parseMergeBlocksToText (take ?i bs')
       @ ''<<<<<<< former'' @ [newline] @ concat (former (blockValues (mergeBlocks ! ?i)))
       @ ''======='' @ [newline] @ concat (current (blockValues (mergeBlocks ! ?i)))
       @ ''>>>>>>> current'' @ [newline]
       @ parseMergeBlocksToText (drop (Suc ?i) bs')))"
      by (rule rendered)
  qed
qed

theorem resolve_ignored_witness:
  "set [\<lparr>pathname = ''a.txt'', index = 1\<rparr>, \<lparr>pathname = ''a.txt'', index = 3\<rparr>]
     \<subseteq> set (getConflictedFileDataList
      [(''a.txt'',
        [\<lparr>status = OK, blockValues = \<lparr>former = [], current = [''A'' @ [newline]]\<rparr>, ignored = False\<rparr>,
         \<lparr>status = CONFLICT, blockValues = \<lparr>former = [], current = [''X'' @ [newline]]\<rparr>,
          ignored = False\<rparr>,
         \<lparr>status = OK, blockValues = \<lparr>former = [], current = [''B'' @ [newline]]\<rparr>, ignored = False\<rparr>,
         \<lparr>status = CONFLICT, blockValues = \<lparr>former = [], current = [''Y'' @ [newline]]\<rparr>,
          ignored = False\<rparr>])])
   \<and> resolveLoop exampleSolver
        [\<lparr>pathname = ''a.txt'', index = 1\<rparr>, \<lparr>pathname = ''a.txt'', index = 3\<rparr>] 0
        [\<lparr>pathname = ''a.txt'', index = 1\<rparr>, \<lparr>pathname = ''a.txt'', index = 3\<rparr>]
        [(''a.txt'',
          [\<lparr>status = OK, blockValues = \<lparr>former = [], current = [''A'' @ [newline]]\<rparr>, ignored = False\<rparr>,
           \<lparr>status = CONFLICT, blockValues = \<lparr>former = [], current = [''X'' @ [newline]]\<rparr>,
            ignored = False\<rparr>,
           \<lparr>status = OK, blockValues = \<lparr>former = [], current = [''B'' @ [newline]]\<rparr>, ignored = False\<rparr>,
           \<lparr>status = CONFLICT, blockValues = \<lparr>former = [], current = [''Y'' @ [newline]]\<rparr>,
            ignored = False\<rparr>])]
      = Some (Inr
        [(''a.txt'',
          [\<lparr>status = OK, blockValues = \<lparr>former = [], current = [''A'' @ [newline]]\<rparr>, ignored = False\<rparr>,
           \<lparr>status = CONFLICT, blockValues = \<lparr>former = [], current = [''X'' @ [newline]]\<rparr>,
            ignored = True\<rparr>,
           \<lparr>status = OK, blockValues = \<lparr>former = [], current = [''B'' @ [newline]]\<rparr>, ignored = False\<rparr>,
           \<lparr>status = OK, blockValues = \<lparr>former = [], current = [''Y'' @ [newline]]\<rparr>,
            ignored = False\<rparr>])])
   \<and> ''a.txt'' \<in> set (conflicts (getResult
        \<lparr>cacheTable = [],
         mergeTable =
           [(''a.txt'',
             [\<lparr>status = OK, blockValues = \<lparr>former = [], current = [''A'' @ [newline]]\<rparr>, ignored = False\<rparr>,
              \<lparr>status = CONFLICT, blockValues = \<lparr>former = [], current = [''X'' @ [newline]]\<rparr>,
               ignored = True\<rparr>,
              \<lparr>status = OK, blockValues = \<lparr>former = [], current = [''B'' @ [newline]]\<rparr>, ignored = False\<rparr>,
              \<lparr>status = OK, blockValues = \<lparr>former = [], current = [''Y'' @ [newline]]\<rparr>,
               ignored = False\<rparr>])],
         binaryTable = []\<rparr>))
   \<and> map_of (files (getResult
        \<lparr>cacheTable = [],
         mergeTable =
           [(''a.txt'',
             [\<lparr>status = OK, blockValues = \<lparr>former = [], current = [''A'' @ [newline]]\<rparr>, ignored = False\<rparr>,
              \<lparr>status = CONFLICT, blockValues = \<lparr>former = [], current = [''X'' @ [newline]]\<rparr>,
               ignored = True\<rparr>,
              \<lparr>status = OK, blockValues = \<lparr>former = [], current = [''B'' @ [newline]]\<rparr>, ignored = False\<rparr>,
              \<lparr>status = OK, blockValues = \<lparr>former = [], current = [''Y'' @ [newline]]\<rparr>,
               ignored = False\<rparr>])],
         binaryTable = []\<rparr>)) ''a.txt''
     = Some (Text (''A'' @ [newline] @ ''<<<<<<< former'' @ [newline] @ ''======='' @ [newline]
                   @ ''X'' @ [newline] @ ''>>>>>>> current'' @ [newline]
                   @ ''B'' @ [newline] @ ''Y'' @ [newline]))"
proof -
  let ?a = "\<lparr>status = OK, blockValues = \<lparr>former = [], current = [''A'' @ [newline]]\<rparr>, ignored = False\<rparr>"
  let ?x = "\<lparr>status = CONFLICT, blockValues = \<lparr>former = [], current = [''X'' @ [newline]]\<rparr>,
          ignored = False\<rparr>"
  let ?b = "\<lparr>status = OK, blockValues = \<lparr>former = [], current = [''B'' @ [newline]]\<rparr>, ignored = False\<rparr>"
  let ?y = "\<lparr>status = CONFLICT, blockValues = \<lparr>former = [], current = [''Y'' @ [newline]]\<rparr>,
          ignored = False\<rparr>"
  let ?table = "[(''a.txt'', [?a, ?x, ?b, ?y])]"
  let ?final = "[(''a.txt'', [?a, ?x\<lparr>ignored := True\<rparr>, ?b, ?y\<lparr>status := OK\<rparr>])]"
  let ?first = "\<lparr>pathname = ''a.txt'', index = 1\<rparr>"
  let ?second = "\<lparr>pathname = ''a.txt'', index = 3\<rparr>"
  have d: "distinct (map fst ?table)"
    by simp
  have work: "set (?first # [?second]) \<subseteq> set (getConflictedFileDataList ?table)"
    by (simp add: getConflictedFileDataList_def)
  have fresh: "?first \<notin> set [?second]"
    by simp
  have entry: "map_of ?table (pathname ?first) = Some [?a, ?x, ?b, ?y]"
    by simp
  have answer: "exampleSolver 0 (solverContext [?first, ?second] ?first [?a, ?x, ?b, ?y]) = Ignored"
    by (simp add: exampleSolver_def)
  have ends: "\<forall>n ctx. 2 \<le> n \<longrightarrow> exampleSolver n ctx \<noteq> Null"
    by (simp add: exampleSolver_def)
  have run: "resolveLoop exampleSolver [?first, ?second] 0 [?first, ?second] ?table = Some (Inr ?final)"
    by (simp add: resolveLoop_step resolveLoop_Nil exampleSolver_def resolveStep_def assign_def
        solverContext_def)
  show ?thesis
    using resolve_ignored[OF d work fresh entry answer ends, of "[]" "[]"] work run
    by (simp add: parseMergeBlocksToText_def appendBlockText_def)
qed

theorem resolve_ignored_counterexample:
  "resolveConflicts (Some exampleSolver)
     \<lparr>cacheTable = [],
      mergeTable =
        [(''a.txt'',
          [\<lparr>status = CONFLICT,
            blockValues = \<lparr>former = [], current = [''X'' @ [newline], ''Y'' @ [newline]]\<rparr>,
            ignored = False\<rparr>])],
      binaryTable = []\<rparr>
     = Some (Inr
        \<lparr>cacheTable = [],
         mergeTable =
           [(''a.txt'',
             [\<lparr>status = CONFLICT,
               blockValues = \<lparr>former = [], current = [''X'' @ [newline], ''Y'' @ [newline]]\<rparr>,
               ignored = True\<rparr>])],
         binaryTable = []\<rparr>)
   \<and> files (getResult
        \<lparr>cacheTable = [],
         mergeTable =
           [(''a.txt'',
             [\<lparr>status = CONFLICT,
               blockValues = \<lparr>former = [], current = [''X'' @ [newline], ''Y'' @ [newline]]\<rparr>,
               ignored = True\<rparr>])],
         binaryTable = []\<rparr>)
     = [(''a.txt'', Text (''<<<<<<< former'' @ [newline] @ ''======='' @ [newline]
                          @ ''X'' @ [newline] @ ''Y'' @ [newline]
                          @ ''>>>>>>> current'' @ [newline]))]"
  by (simp add: resolveConflicts_def getConflictedFileDataList_def resolveLoop_step resolveLoop_Nil
      exampleSolver_def resolveStep_def assign_def solverContext_def getResult_def
      parseMergeBlocksToText_def appendBlockText_def)

section \<open>Two overlays that insert at the same anchor\<close>

subsection \<open>The working copy of the baseline\<close>

lemma markedCopy_refl: "markedCopy original original"
  by (simp add: markedCopy_def)

lemma markedCopy_setRemoved:
  assumes "markedCopy original cs" "k < int (length original)"
  shows "\<exists>cs'. setRemoved (map Line cs) k = map Line cs' \<and> markedCopy original cs'"
proof (cases "isArrayIndex k")
  case False
  with assms(1) show ?thesis by (auto simp: setRemoved_def)
next
  case True
  then have k: "nat k < length cs"
    using assms by (auto simp: markedCopy_def isArrayIndex_def nat_less_iff)
  let ?cs' = "cs[nat k := (cs ! nat k)\<lparr>removed := True\<rparr>]"
  have "setRemoved (map Line cs) k = map Line ?cs'"
    using True k by (simp add: setRemoved_def map_update)
  moreover have "markedCopy original ?cs'"
    using assms(1) k unfolding markedCopy_def
    by (auto simp: nth_list_update)
  ultimately show ?thesis by blast
qed

lemma markedCopy_applyChange:
  assumes "markedCopy original cs" "fst st = map Line cs"
    and "\<not> added c \<and> removed c \<longrightarrow> lineNumber c < int (length original)"
  shows "\<exists>cs'. fst (applyChange st c) = map Line cs' \<and> markedCopy original cs'"
proof (cases "\<not> added c \<and> removed c")
  case True
  with assms(3) have "lineNumber c < int (length original)" by simp
  from markedCopy_setRemoved[OF assms(1) this] True assms(2) show ?thesis
    by (simp add: applyChange_def)
next
  case False
  with assms(1,2) show ?thesis
    by (auto simp: applyChange_def)
qed

lemma markedCopy_foldl_applyChange:
  assumes "markedCopy original cs" "fst st = map Line cs"
    and "\<forall>c \<in> set currentDiff. \<not> added c \<and> removed c \<longrightarrow> lineNumber c < int (length original)"
  shows "\<exists>cs'. fst (foldl applyChange st currentDiff) = map Line cs' \<and> markedCopy original cs'"
  using assms
proof (induction currentDiff arbitrary: st cs)
  case Nil
  then show ?case by auto
next
  case (Cons c currentDiff)
  from Cons.prems(3) have c: "\<not> added c \<and> removed c \<longrightarrow> lineNumber c < int (length original)"
    by simp
  from markedCopy_applyChange[OF Cons.prems(1,2) c] obtain cs1 where
    "fst (applyChange st c) = map Line cs1" "markedCopy original cs1"
    by blast
  from Cons.IH[OF this(2) this(1)] Cons.prems(3) show ?case
    by simp
qed

lemma markedCopy_foldl_applyDiff:
  assumes "markedCopy original cs" "fst st = map Line cs"
    and "\<forall>currentDiff \<in> set overlays. \<forall>c \<in> set currentDiff.
           \<not> added c \<and> removed c \<longrightarrow> lineNumber c < int (length original)"
  shows "\<exists>cs'. fst (foldl applyDiff st overlays) = map Line cs' \<and> markedCopy original cs'"
  using assms
proof (induction overlays arbitrary: st cs)
  case Nil
  then show ?case by auto
next
  case (Cons currentDiff overlays)
  from Cons.prems(3) have
    "\<forall>c \<in> set currentDiff. \<not> added c \<and> removed c \<longrightarrow> lineNumber c < int (length original)"
    by simp
  from markedCopy_foldl_applyChange[OF Cons.prems(1,2) this] obtain cs1 where
    "fst (foldl applyChange st currentDiff) = map Line cs1" "markedCopy original cs1"
    by blast
  then have "fst (applyDiff st currentDiff) = map Line cs1"
    by (simp add: applyDiff_def Let_def)
  from Cons.IH[OF \<open>markedCopy original cs1\<close> this] Cons.prems(3) show ?case
    by simp
qed

lemma markedCopy_entries:
  assumes "markedCopy original cs" "e \<in> set (map Line cs)"
  shows "(\<forall>c \<in> set original. \<not> conflicted c) \<longrightarrow> plainEntry e"
    and "(\<forall>c \<in> set original. \<not> added c) \<longrightarrow> \<not> isInsertion e"
proof -
  from assms(2) obtain i where i: "i < length cs" and e: "e = Line (cs ! i)"
    by (auto simp: in_set_conv_nth)
  from assms(1) i have "cs ! i = original ! i \<or> cs ! i = (original ! i)\<lparr>removed := True\<rparr>"
    and "original ! i \<in> set original"
    by (auto simp: markedCopy_def)
  then show "(\<forall>c \<in> set original. \<not> conflicted c) \<longrightarrow> plainEntry e"
    and "(\<forall>c \<in> set original. \<not> added c) \<longrightarrow> \<not> isInsertion e"
    unfolding e by auto
qed

subsection \<open>Splitting the reduction at a patch\<close>


lemma set_slice: "set (slice xs s e) \<subseteq> set xs"
  unfolding slice_def by (meson set_drop_subset set_take_subset subset_trans)

lemma set_slice_from: "set (slice_from xs s) \<subseteq> set xs"
  unfolding slice_from_def by (rule set_drop_subset)

lemma set_sliceBlocks: "b \<in> set (sliceBlocks originalDiff lineNumbers) \<Longrightarrow> set b \<subseteq> set originalDiff"
  by (induction originalDiff lineNumbers rule: sliceBlocks.induct)
     (auto dest: subsetD[OF set_slice] subsetD[OF set_slice_from])

lemma set_reduceBlocks:
  "set (reduceBlocks [] (sliceBlocks originalDiff lineNumbers) patches)
     \<subseteq> set originalDiff \<union> (\<Union>q \<in> set patches. Line ` set (changes q))"
proof (induction originalDiff lineNumbers arbitrary: patches rule: sliceBlocks.induct)
  case (1 originalDiff)
  show ?case by simp
next
  case (2 originalDiff l)
  show ?case
    using set_slice_from[of originalDiff "l + 1"]
    by (cases patches) (auto simp: reduceBlocks_Cons simp del: reduceBlocks.simps(2,3))
next
  case (3 originalDiff l n rest)
  show ?case
  proof (cases patches)
    case Nil
    with 3[of "[]"] set_slice[of originalDiff "l + 1" "n + 1"] show ?thesis
      by (auto simp: reduceBlocks_Cons simp del: reduceBlocks.simps(2,3))
  next
    case (Cons q qs)
    with 3[of qs] set_slice[of originalDiff "l + 1" "n + 1"] show ?thesis
      by (auto simp: reduceBlocks_Cons simp del: reduceBlocks.simps(2,3))
  qed
qed

lemma slice_join:
  assumes "-1 \<le> l" "l \<le> k" "k \<le> a"
  shows "slice xs (l + 1) (k + 1) @ slice xs (k + 1) (a + 1) = slice xs (l + 1) (a + 1)"
proof -
  let ?n = "length xs"
  let ?l = "min (nat (l + 1)) ?n" and ?k = "min (nat (k + 1)) ?n" and ?a = "min (nat (a + 1)) ?n"
  have r: "relativeIndex ?n (l + 1) = ?l" "relativeIndex ?n (k + 1) = ?k" "relativeIndex ?n (a + 1) = ?a"
    using assms by (simp_all add: relativeIndex_def)
  have le: "?l \<le> ?k" "?k \<le> ?a"
    using assms by auto
  have "take (?k - ?l) (drop ?l xs) @ take (?a - ?k) (drop ?k xs) = take (?a - ?l) (drop ?l xs)"
  proof -
    have "drop ?k xs = drop (?k - ?l) (drop ?l xs)"
      using le by simp
    moreover have "?a - ?l = (?k - ?l) + (?a - ?k)"
      using le by simp
    ultimately show ?thesis
      by (simp only: take_add)
  qed
  then show ?thesis
    unfolding slice_def r .
qed

lemma reduce_split:
  assumes "length ps1 = length ks1"
  shows "\<exists>X. reduceBlocks [] (sliceBlocks od (l # ks1 @ a # ks2)) (ps1 @ p # ps2)
             = X @ map Line (changes p) @ reduceBlocks [] (sliceBlocks od (a # ks2)) ps2
          \<and> set X \<subseteq> set od \<union> (\<Union>q \<in> set ps1. Line ` set (changes q))
          \<and> ((\<forall>q \<in> set ps1. \<forall>c \<in> set (changes q). added c) \<and> (\<forall>e \<in> set od. \<not> isInsertion e)
               \<and> sorted (l # ks1 @ [a]) \<and> -1 \<le> l
              \<longrightarrow> filter (\<lambda>e. \<not> isInsertion e) X = slice od (l + 1) (a + 1))"
  using assms
proof (induction ks1 arbitrary: l ps1)
  case Nil
  let ?X = "slice od (l + 1) (a + 1)"
  have 1: "reduceBlocks [] (sliceBlocks od (l # [] @ a # ks2)) (ps1 @ p # ps2)
      = ?X @ map Line (changes p) @ reduceBlocks [] (sliceBlocks od (a # ks2)) ps2"
    using Nil by (simp add: reduceBlocks_Cons del: reduceBlocks.simps(2,3))
  have 2: "set ?X \<subseteq> set od"
    by (rule set_slice)
  have 3: "filter (\<lambda>e. \<not> isInsertion e) ?X = ?X" if "\<forall>e \<in> set od. \<not> isInsertion e"
  proof -
    from that have "\<forall>e \<in> set ?X. \<not> isInsertion e"
      using 2 by blast
    then show ?thesis by (simp only: filter_id_conv)
  qed
  show ?case
  proof (intro exI[of _ ?X] conjI impI)
    show "reduceBlocks [] (sliceBlocks od (l # [] @ a # ks2)) (ps1 @ p # ps2)
      = ?X @ map Line (changes p) @ reduceBlocks [] (sliceBlocks od (a # ks2)) ps2"
      by (rule 1)
    show "set ?X \<subseteq> set od \<union> (\<Union>q \<in> set ps1. Line ` set (changes q))"
      using 2 by blast
    assume "(\<forall>q \<in> set ps1. \<forall>c \<in> set (changes q). added c) \<and> (\<forall>e \<in> set od. \<not> isInsertion e)
               \<and> sorted (l # [] @ [a]) \<and> -1 \<le> l"
    then have "\<forall>e \<in> set od. \<not> isInsertion e" by blast
    then show "filter (\<lambda>e. \<not> isInsertion e) ?X = slice od (l + 1) (a + 1)"
      by (rule 3)
  qed
next
  case (Cons k ks1)
  then obtain q qs where ps1: "ps1 = q # qs" and len: "length qs = length ks1"
    by (cases ps1) auto
  from Cons.IH[OF len, of k] obtain X where
    all: "reduceBlocks [] (sliceBlocks od (k # ks1 @ a # ks2)) (qs @ p # ps2)
          = X @ map Line (changes p) @ reduceBlocks [] (sliceBlocks od (a # ks2)) ps2
       \<and> set X \<subseteq> set od \<union> (\<Union>q \<in> set qs. Line ` set (changes q))
       \<and> ((\<forall>q \<in> set qs. \<forall>c \<in> set (changes q). added c) \<and> (\<forall>e \<in> set od. \<not> isInsertion e)
               \<and> sorted (k # ks1 @ [a]) \<and> -1 \<le> k
              \<longrightarrow> filter (\<lambda>e. \<not> isInsertion e) X = slice od (k + 1) (a + 1))"
    ..
  from all have
    X: "reduceBlocks [] (sliceBlocks od (k # ks1 @ a # ks2)) (qs @ p # ps2)
          = X @ map Line (changes p) @ reduceBlocks [] (sliceBlocks od (a # ks2)) ps2"
    by (rule conjunct1)
  from all have
    Xset: "set X \<subseteq> set od \<union> (\<Union>q \<in> set qs. Line ` set (changes q))"
    by (rule conjunct1[OF conjunct2])
  from all have
    Xpos: "(\<forall>q \<in> set qs. \<forall>c \<in> set (changes q). added c) \<and> (\<forall>e \<in> set od. \<not> isInsertion e)
               \<and> sorted (k # ks1 @ [a]) \<and> -1 \<le> k
              \<longrightarrow> filter (\<lambda>e. \<not> isInsertion e) X = slice od (k + 1) (a + 1)"
    by (rule conjunct2[OF conjunct2])
  let ?X = "slice od (l + 1) (k + 1) @ map Line (changes q) @ X"
  have "sliceBlocks od (l # (k # ks1) @ a # ks2)
      = slice od (l + 1) (k + 1) # sliceBlocks od (k # ks1 @ a # ks2)"
    by simp
  then have "reduceBlocks [] (sliceBlocks od (l # (k # ks1) @ a # ks2)) (ps1 @ p # ps2)
      = slice od (l + 1) (k + 1) @ map Line (changes q)
          @ reduceBlocks [] (sliceBlocks od (k # ks1 @ a # ks2)) (qs @ p # ps2)"
    unfolding ps1 by (simp only: append_Cons reduceBlocks_Cons(1))
  then have 1: "reduceBlocks [] (sliceBlocks od (l # (k # ks1) @ a # ks2)) (ps1 @ p # ps2)
      = ?X @ map Line (changes p) @ reduceBlocks [] (sliceBlocks od (a # ks2)) ps2"
    by (simp only: X append_assoc)
  have "set (slice od (l + 1) (k + 1)) \<subseteq> set od"
    by (rule set_slice)
  with Xset have 2: "set ?X \<subseteq> set od \<union> (\<Union>q \<in> set ps1. Line ` set (changes q))"
    unfolding ps1 by auto
  have 3: "filter (\<lambda>e. \<not> isInsertion e) ?X = slice od (l + 1) (a + 1)"
    if h: "(\<forall>q \<in> set ps1. \<forall>c \<in> set (changes q). added c) \<and> (\<forall>e \<in> set od. \<not> isInsertion e)
               \<and> sorted (l # (k # ks1) @ [a]) \<and> -1 \<le> l"
  proof -
    from h have srt: "sorted (l # (k # ks1) @ [a])" and l: "-1 \<le> l"
      and q: "\<forall>c \<in> set (changes q). added c"
      and qs: "\<forall>q \<in> set qs. \<forall>c \<in> set (changes q). added c"
      and od: "\<forall>e \<in> set od. \<not> isInsertion e"
      unfolding ps1 by simp_all
    from srt have lk: "l \<le> k" and ka: "k \<le> a" and srt': "sorted (k # ks1 @ [a])"
      by simp_all
    from l lk have k: "-1 \<le> k" by simp
    from Xpos qs od srt' k have fX: "filter (\<lambda>e. \<not> isInsertion e) X = slice od (k + 1) (a + 1)"
      by blast
    have "\<forall>e \<in> set (slice od (l + 1) (k + 1)). \<not> isInsertion e"
      using od set_slice[of od "l + 1" "k + 1"] by blast
    then have fS: "filter (\<lambda>e. \<not> isInsertion e) (slice od (l + 1) (k + 1)) = slice od (l + 1) (k + 1)"
      by (simp only: filter_id_conv)
    have fQ: "filter (\<lambda>e. \<not> isInsertion e) (map Line (changes q)) = []"
      using q by (simp add: filter_empty_conv)
    have "filter (\<lambda>e. \<not> isInsertion e) ?X
        = slice od (l + 1) (k + 1) @ slice od (k + 1) (a + 1)"
      by (simp only: filter_append fX fS fQ append_Nil)
    then show ?thesis
      by (simp only: slice_join[OF l lk ka])
  qed
  show ?case
  proof (intro exI[of _ ?X] conjI impI)
    show "reduceBlocks [] (sliceBlocks od (l # (k # ks1) @ a # ks2)) (ps1 @ p # ps2)
      = ?X @ map Line (changes p) @ reduceBlocks [] (sliceBlocks od (a # ks2)) ps2"
      by (rule 1)
    show "set ?X \<subseteq> set od \<union> (\<Union>q \<in> set ps1. Line ` set (changes q))"
      by (rule 2)
    assume "(\<forall>q \<in> set ps1. \<forall>c \<in> set (changes q). added c) \<and> (\<forall>e \<in> set od. \<not> isInsertion e)
               \<and> sorted (l # (k # ks1) @ [a]) \<and> -1 \<le> l"
    then show "filter (\<lambda>e. \<not> isInsertion e) ?X = slice od (l + 1) (a + 1)"
      by (rule 3)
  qed
qed

subsection \<open>The entries of the patch table of two overlays\<close>

lemma distinct_map_sort_key: "distinct (map f (sort_key f xs)) = distinct (map f xs)"
  by (induction xs) (simp_all add: distinct_insort_key)

lemma distinct_objectEntries:
  assumes "distinct (map fst patchTable)"
  shows "distinct (map fst (objectEntries patchTable))"
proof -
  have "distinct (map fst (filter (\<lambda>e. isArrayIndex (fst e)) patchTable))"
    and "distinct (map fst (filter (\<lambda>e. \<not> isArrayIndex (fst e)) patchTable))"
    using assms by (simp_all add: distinct_map_filter)
  moreover have "fst ` set (filter (\<lambda>e. isArrayIndex (fst e)) patchTable)
      \<inter> fst ` set (filter (\<lambda>e. \<not> isArrayIndex (fst e)) patchTable) = {}"
    by auto
  ultimately show ?thesis
    by (simp add: objectEntries_def distinct_map_sort_key)
qed

lemma map_fst_markConflicts:
  "map fst (map (\<lambda>(k, item). (k, markConflicts item)) patchTable) = map fst patchTable"
  by (induction patchTable) auto

lemma key_has_entry: "k \<in> set (map fst xs) \<Longrightarrow> \<exists>v. (k, v) \<in> set xs"
  by force

lemma two_overlays_entry:
  assumes "(k, item') \<in> set (objectEntries (map (\<lambda>(k, item). (k, markConflicts item))
              (snd (foldl applyDiff (map Line original, []) [o1, o2]))))"
  shows "changes item' =
           (if insertedAt k o1 \<noteq> [] \<and> insertedAt k o2 \<noteq> []
            then map markConflicted (insertedAt k o1 @ insertedAt k o2)
            else insertedAt k o1 @ insertedAt k o2)"
    and "insertedAt k o1 \<noteq> [] \<or> insertedAt k o2 \<noteq> []"
proof -
  let ?pt = "snd (foldl applyDiff (map Line original, []) [o1, o2])"
  have d: "distinct (map fst ?pt)"
    using foldl_applyDiff_table(2)[of "(map Line original, [])" "[o1, o2]"] by simp
  from assms have "(k, item') \<in> set (map (\<lambda>(k, item). (k, markConflicts item)) ?pt)"
    by (simp only: set_objectEntries)
  then obtain item where item: "(k, item) \<in> set ?pt" and item': "item' = markConflicts item"
    by auto
  from item d have m: "map_of ?pt k = Some item"
    by simp
  have "changesAt ?pt k = insertedAt k o1 @ insertedAt k o2"
    using foldl_applyDiff_table(3)[of "(map Line original, [])" "[o1, o2]" k]
    by (simp add: changesAt_def)
  with m have c: "changes item = insertedAt k o1 @ insertedAt k o2"
    by (simp add: changesAt_def)
  have "modifiedAt ?pt k =
      (if insertedAt k o1 \<noteq> [] then 1 else 0) + (if insertedAt k o2 \<noteq> [] then 1 else 0)"
    using foldl_applyDiff_table(4)[of "(map Line original, [])" "[o1, o2]" k]
    by (simp add: modifiedAt_def)
  with m have l: "modifyLength item =
      (if insertedAt k o1 \<noteq> [] then 1 else 0) + (if insertedAt k o2 \<noteq> [] then 1 else 0)"
    by (simp add: modifiedAt_def)
  show "changes item' =
           (if insertedAt k o1 \<noteq> [] \<and> insertedAt k o2 \<noteq> []
            then map markConflicted (insertedAt k o1 @ insertedAt k o2)
            else insertedAt k o1 @ insertedAt k o2)"
    unfolding item' markConflicts_def using c l
    by (auto simp: markConflicted_def)
  have "k \<in> fst ` set ?pt"
    using item by force
  then have "k \<in> lineNumber ` {c \<in> set o1. added c} \<union> lineNumber ` {c \<in> set o2. added c}"
    using foldl_applyDiff_table(1)[of "(map Line original, [])" "[o1, o2]"] by simp
  then show "insertedAt k o1 \<noteq> [] \<or> insertedAt k o2 \<noteq> []"
    by (auto simp: insertedAt_def filter_empty_conv)
qed

lemma two_overlays_anchor:
  assumes "insertedAt a o1 \<noteq> []"
  shows "\<exists>es1 ia es2.
      objectEntries (map (\<lambda>(k, item). (k, markConflicts item))
         (snd (foldl applyDiff (map Line original, []) [o1, o2]))) = es1 @ (a, ia) # es2
      \<and> a \<notin> fst ` set es1 \<and> a \<notin> fst ` set es2
      \<and> (isArrayIndex a \<longrightarrow> sorted (-1 # map fst es1 @ [a]))"
proof -
  let ?pt = "snd (foldl applyDiff (map Line original, []) [o1, o2])"
  let ?mpt = "map (\<lambda>(k, item). (k, markConflicts item)) ?pt"
  let ?S = "sort_key fst (filter (\<lambda>e. isArrayIndex (fst e)) ?mpt)"
  let ?N = "filter (\<lambda>e. \<not> isArrayIndex (fst e)) ?mpt"
  have "distinct (map fst ?pt)"
    using foldl_applyDiff_table(2)[of "(map Line original, [])" "[o1, o2]"] by simp
  then have "distinct (map fst ?mpt)"
    by (simp only: map_fst_markConflicts)
  then have d: "distinct (map fst (objectEntries ?mpt))"
    by (rule distinct_objectEntries)
  from assms have "a \<in> lineNumber ` {c \<in> set o1. added c}"
    by (auto simp: insertedAt_def filter_empty_conv)
  then have "a \<in> fst ` set ?pt"
    using foldl_applyDiff_table(1)[of "(map Line original, [])" "[o1, o2]"] by simp
  then have "a \<in> set (map fst ?mpt)"
    by (simp only: map_fst_markConflicts set_map)
  then have "\<exists>ia. (a, ia) \<in> set ?mpt"
    by (rule key_has_entry)
  then obtain ia where ia: "(a, ia) \<in> set ?mpt" ..
  have split: "\<exists>es1 es2. objectEntries ?mpt = es1 @ (a, ia) # es2
      \<and> (isArrayIndex a \<longrightarrow> sorted (-1 # map fst es1 @ [a]))"
  proof (cases "isArrayIndex a")
    case True
    with ia have "(a, ia) \<in> set ?S"
      by simp
    then obtain s1 s2 where S: "?S = s1 @ (a, ia) # s2"
      by (meson split_list)
    have "sorted (map fst ?S)"
      by (rule sorted_sort_key)
    then have "sorted (map fst s1 @ [a])"
      unfolding S by (simp add: sorted_append)
    moreover have "\<forall>k \<in> set (map fst s1). -1 \<le> k"
    proof
      fix k
      assume "k \<in> set (map fst s1)"
      then have "k \<in> fst ` set ?S"
        unfolding S by auto
      then have "isArrayIndex k"
        by auto
      then show "-1 \<le> k"
        by (simp add: isArrayIndex_def)
    qed
    moreover have "-1 \<le> a"
      using True by (simp add: isArrayIndex_def)
    ultimately have "sorted (-1 # map fst s1 @ [a])"
      by simp
    moreover have "objectEntries ?mpt = s1 @ (a, ia) # (s2 @ ?N)"
      unfolding objectEntries_def S by simp
    ultimately show ?thesis by blast
  next
    case False
    from ia have "(a, ia) \<in> set (objectEntries ?mpt)"
      by (simp only: set_objectEntries)
    then obtain es1 es2 where "objectEntries ?mpt = es1 @ (a, ia) # es2"
      by (meson split_list)
    with False show ?thesis by blast
  qed
  then obtain es1 es2 where es: "objectEntries ?mpt = es1 @ (a, ia) # es2"
    and srt: "isArrayIndex a \<longrightarrow> sorted (-1 # map fst es1 @ [a])"
    by blast
  from d have "a \<notin> fst ` set es1 \<and> a \<notin> fst ` set es2"
    unfolding es by auto
  with es srt show ?thesis by blast
qed

subsection \<open>The blocks around one conflict\<close>

lemma parse_around_conflict:
  assumes X: "\<forall>e \<in> set X. plainEntry e" and Y: "\<forall>e \<in> set Y. plainEntry e"
    and C: "\<forall>c \<in> set C. conflicted c \<and> \<not> removed c \<and> conflictGroup c = Some Current"
    and ne: "C \<noteq> []"
  shows "\<exists>before after.
      parseDiffToMergeBlocks (X @ map Line C @ Y) =
        Inr (before @ [\<lparr>status = CONFLICT,
                         blockValues = \<lparr>former = [], current = map val C\<rparr>,
                         ignored = False\<rparr>] @ after)
      \<and> (\<forall>b \<in> set before \<union> set after. status b = OK)"
proof -
  let ?B0 = "pushLines OK (visibleValues X) []"
  let ?c = "\<lparr>status = CONFLICT, blockValues = \<lparr>former = [], current = map val C\<rparr>, ignored = False\<rparr>"
  let ?after = "pushLines OK (visibleValues Y) []"
  have b0: "\<forall>b \<in> set ?B0. status b = OK"
    by (simp add: pushLines_def)
  have after: "\<forall>b \<in> set ?after. status b = OK"
    by (simp add: pushLines_def)
  have 1: "parseLines [] (X @ (map Line C @ Y)) = parseLines ?B0 (map Line C @ Y)"
    by (rule parseLines_plain[OF X])
  have 2: "parseLines ?B0 (map Line C @ Y) = parseLines (pushLines CONFLICT (map val C) ?B0) Y"
    by (rule parseLines_conflicts[OF C])
  have 3: "pushLines CONFLICT (map val C) ?B0 = ?B0 @ [?c]"
    using ne by (simp add: pushLines_def)
  have "parseLines (?B0 @ [?c]) (Y @ []) = parseLines (pushLines OK (visibleValues Y) (?B0 @ [?c])) []"
    by (rule parseLines_plain[OF Y])
  then have 4: "parseLines (?B0 @ [?c]) Y = Inr (pushLines OK (visibleValues Y) (?B0 @ [?c]))"
    by simp
  have 5: "pushLines OK (visibleValues Y) (?B0 @ [?c]) = ?B0 @ [?c] @ ?after"
    by (simp add: pushLines_def)
  have "parseDiffToMergeBlocks (X @ map Line C @ Y) = Inr (?B0 @ [?c] @ ?after)"
    unfolding parseDiffToMergeBlocks_def 1 2 3 4 5 ..
  with b0 after show ?thesis
    by blast
qed

lemma slice_prefix:
  assumes "-1 \<le> a"
  shows "slice xs (-1 + 1) (a + 1) = take (nat (a + 1)) xs"
proof -
  have "relativeIndex (length xs) (-1 + 1) = 0"
    by (simp add: relativeIndex_def)
  moreover have "relativeIndex (length xs) (a + 1) = min (nat (a + 1)) (length xs)"
    using assms by (simp add: relativeIndex_def)
  ultimately show ?thesis
    by (simp add: slice_def min_def)
qed

text \<open>
  One shared anchor. Let two overlays of a baseline of common lines both insert at the
  anchor \<open>a\<close> and at no other common anchor, their removed changes pointing into
  the baseline. Then the merged list is a part without conflicts, the insertions of
  both overlays at \<open>a\<close>, all marked as conflicts, and a second part without
  conflicts. Its blocks are one \<open>CONFLICT\<close> block, which holds the inserted lines of
  the first overlay followed by those of the second, between \<open>OK\<close> blocks. Where
  \<open>a\<close> is an array index, the lines of the baseline that precede the conflict are
  its lines up to line \<open>a\<close>. For the anchor \<open>-1\<close> this lemma says nothing about the
  place of the conflict; that anchor is evaluated at the end of this section.
\<close>

lemma merge_same_anchor:
  assumes base: "\<forall>c \<in> set original. \<not> conflicted c \<and> \<not> added c"
    and wf: "\<forall>c \<in> set o1 \<union> set o2.
               \<not> conflicted c \<and> (added c \<longrightarrow> \<not> removed c)
               \<and> (\<not> added c \<and> removed c \<longrightarrow> lineNumber c < int (length original))"
    and a1: "insertedAt a o1 \<noteq> []"
    and a2: "insertedAt a o2 \<noteq> []"
    and only: "\<forall>k. insertedAt k o1 \<noteq> [] \<and> insertedAt k o2 \<noteq> [] \<longrightarrow> k = a"
  shows "\<exists>X Y before after cs.
      merge (Some original) (Some [o1, o2])
        = X @ map Line (map markConflicted (insertedAt a o1 @ insertedAt a o2)) @ Y
      \<and> (\<forall>e \<in> set X \<union> set Y. plainEntry e)
      \<and> parseDiffToMergeBlocks (merge (Some original) (Some [o1, o2]))
          = Inr (before
                 @ [\<lparr>status = CONFLICT,
                     blockValues = \<lparr>former = [],
                                    current = map val (insertedAt a o1) @ map val (insertedAt a o2)\<rparr>,
                     ignored = False\<rparr>]
                 @ after)
      \<and> (\<forall>b \<in> set before \<union> set after. status b = OK)
      \<and> markedCopy original cs
      \<and> (isArrayIndex a \<longrightarrow>
            filter (\<lambda>e. \<not> isInsertion e) X = map Line (take (nat (a + 1)) cs))"
proof -
  let ?st = "foldl applyDiff (map Line original, []) [o1, o2]"
  let ?entries = "objectEntries (map (\<lambda>(k, item). (k, markConflicts item)) (snd ?st))"
  let ?C = "map markConflicted (insertedAt a o1 @ insertedAt a o2)"
  \<comment> \<open>the working copy of the baseline\<close>
  have "\<forall>currentDiff \<in> set [o1, o2]. \<forall>c \<in> set currentDiff.
           \<not> added c \<and> removed c \<longrightarrow> lineNumber c < int (length original)"
    using wf by auto
  from markedCopy_foldl_applyDiff[OF markedCopy_refl _ this, of "(map Line original, [])"]
  obtain cs where od: "fst ?st = map Line cs" and cs: "markedCopy original cs"
    by auto
  have od_plain: "\<forall>e \<in> set (fst ?st). plainEntry e"
    unfolding od using markedCopy_entries(1)[OF cs] base by blast
  have od_base: "\<forall>e \<in> set (fst ?st). \<not> isInsertion e"
    unfolding od using markedCopy_entries(2)[OF cs] base by blast
  \<comment> \<open>the entries of the patch table, split at the anchor\<close>
  from two_overlays_anchor[OF a1, of original o2] obtain es1 ia es2 where
    es: "?entries = es1 @ (a, ia) # es2"
    and k1: "a \<notin> fst ` set es1" and k2: "a \<notin> fst ` set es2"
    and srt: "isArrayIndex a \<longrightarrow> sorted (-1 # map fst es1 @ [a])"
    by blast
  have "(a, ia) \<in> set ?entries"
    unfolding es by simp
  from two_overlays_entry(1)[OF this] a1 a2 have ia: "changes ia = ?C"
    by simp
  have others: "changes q = insertedAt k o1 @ insertedAt k o2"
    if "(k, q) \<in> set es1 \<union> set es2" for k q
  proof -
    from that k1 k2 have "k \<noteq> a"
      by force
    with only have nb: "\<not> (insertedAt k o1 \<noteq> [] \<and> insertedAt k o2 \<noteq> [])"
      by blast
    from that have ent: "(k, q) \<in> set ?entries"
      unfolding es by auto
    show ?thesis
      using two_overlays_entry(1)[OF ent] by (simp only: nb if_False)
  qed
  have inserted: "\<not> conflicted c \<and> added c"
    if "(k, q) \<in> set es1 \<union> set es2" "c \<in> set (changes q)" for k q c
  proof -
    from that have "c \<in> set (insertedAt k o1) \<union> set (insertedAt k o2)"
      using others by auto
    then have "c \<in> set o1 \<union> set o2" and "added c"
      by (auto simp: insertedAt_def)
    with wf show ?thesis by blast
  qed
  have patch_plain: "plainEntry e"
    if "q \<in> set (map snd es1) \<union> set (map snd es2)" "e \<in> Line ` set (changes q)" for q e
  proof -
    from that(1) have "\<exists>k. (k, q) \<in> set es1 \<union> set es2"
      by force
    then obtain k where kq: "(k, q) \<in> set es1 \<union> set es2" ..
    from that(2) obtain c where c: "c \<in> set (changes q)" and e: "e = Line c"
      by blast
    from inserted[OF kq c] show ?thesis
      unfolding e by simp
  qed
  \<comment> \<open>the merged list, split at the patch of the anchor\<close>
  have m: "merge (Some original) (Some [o1, o2]) =
      reduceBlocks [] (sliceBlocks (fst ?st) (-1 # map fst es1 @ a # map fst es2))
        (map snd es1 @ ia # map snd es2)"
    using merge_Some[of "[o1, o2]" original] by (simp only: es) simp
  have "length (map snd es1) = length (map fst es1)"
    by simp
  from reduce_split[OF this, of "fst ?st" "-1" a "map fst es2" ia "map snd es2"]
  obtain X where
    all: "reduceBlocks [] (sliceBlocks (fst ?st) (-1 # map fst es1 @ a # map fst es2))
            (map snd es1 @ ia # map snd es2)
          = X @ map Line (changes ia)
              @ reduceBlocks [] (sliceBlocks (fst ?st) (a # map fst es2)) (map snd es2)
       \<and> set X \<subseteq> set (fst ?st) \<union> (\<Union>q \<in> set (map snd es1). Line ` set (changes q))
       \<and> ((\<forall>q \<in> set (map snd es1). \<forall>c \<in> set (changes q). added c)
            \<and> (\<forall>e \<in> set (fst ?st). \<not> isInsertion e)
            \<and> sorted (-1 # map fst es1 @ [a]) \<and> -1 \<le> (-1 :: int)
           \<longrightarrow> filter (\<lambda>e. \<not> isInsertion e) X = slice (fst ?st) (-1 + 1) (a + 1))"
    ..
  let ?Y = "reduceBlocks [] (sliceBlocks (fst ?st) (a # map fst es2)) (map snd es2)"
  from all m ia have split: "merge (Some original) (Some [o1, o2]) = X @ map Line ?C @ ?Y"
    by simp
  from all have Xset: "set X \<subseteq> set (fst ?st) \<union> (\<Union>q \<in> set (map snd es1). Line ` set (changes q))"
    by (rule conjunct1[OF conjunct2])
  have Yset: "set ?Y \<subseteq> set (fst ?st) \<union> (\<Union>q \<in> set (map snd es2). Line ` set (changes q))"
    by (rule set_reduceBlocks)
  have Xplain: "\<forall>e \<in> set X. plainEntry e"
  proof
    fix e
    assume "e \<in> set X"
    with Xset have "e \<in> set (fst ?st) \<or> (\<exists>q \<in> set (map snd es1). e \<in> Line ` set (changes q))"
      by blast
    then show "plainEntry e"
      using od_plain patch_plain by blast
  qed
  have Yplain: "\<forall>e \<in> set ?Y. plainEntry e"
  proof
    fix e
    assume "e \<in> set ?Y"
    with Yset have "e \<in> set (fst ?st) \<or> (\<exists>q \<in> set (map snd es2). e \<in> Line ` set (changes q))"
      by blast
    then show "plainEntry e"
      using od_plain patch_plain by blast
  qed
  \<comment> \<open>the blocks\<close>
  have Cprops: "\<forall>c \<in> set ?C. conflicted c \<and> \<not> removed c \<and> conflictGroup c = Some Current"
  proof
    fix c
    assume "c \<in> set ?C"
    then obtain c0 where c0: "c0 \<in> set (insertedAt a o1) \<union> set (insertedAt a o2)"
      and c: "c = markConflicted c0"
      by auto
    from c0 have "c0 \<in> set o1 \<union> set o2" "added c0"
      by (auto simp: insertedAt_def)
    with wf have "\<not> removed c0" by blast
    then show "conflicted c \<and> \<not> removed c \<and> conflictGroup c = Some Current"
      unfolding c by (simp add: markConflicted_def)
  qed
  have Cne: "?C \<noteq> []"
    using a1 by simp
  have Cval: "map val ?C = map val (insertedAt a o1) @ map val (insertedAt a o2)"
    by (simp add: markConflicted_def comp_def)
  from parse_around_conflict[OF Xplain Yplain Cprops Cne] obtain before after where
    blocks: "parseDiffToMergeBlocks (X @ map Line ?C @ ?Y) =
        Inr (before @ [\<lparr>status = CONFLICT,
                         blockValues = \<lparr>former = [], current = map val ?C\<rparr>,
                         ignored = False\<rparr>] @ after)"
    and oks: "\<forall>b \<in> set before \<union> set after. status b = OK"
    by blast
  \<comment> \<open>the position\<close>
  have pos: "filter (\<lambda>e. \<not> isInsertion e) X = map Line (take (nat (a + 1)) cs)"
    if idx: "isArrayIndex a"
  proof -
    have "\<forall>q \<in> set (map snd es1). \<forall>c \<in> set (changes q). added c"
    proof (intro ballI)
      fix q c
      assume "q \<in> set (map snd es1)" "c \<in> set (changes q)"
      then have "\<exists>k. (k, q) \<in> set es1 \<union> set es2"
        by force
      then obtain k where "(k, q) \<in> set es1 \<union> set es2" ..
      with \<open>c \<in> set (changes q)\<close> inserted show "added c"
        by blast
    qed
    with all od_base srt idx have "filter (\<lambda>e. \<not> isInsertion e) X = slice (fst ?st) (-1 + 1) (a + 1)"
      by simp
    also have "\<dots> = take (nat (a + 1)) (fst ?st)"
      using idx by (intro slice_prefix) (simp add: isArrayIndex_def)
    also have "\<dots> = map Line (take (nat (a + 1)) cs)"
      unfolding od by (simp add: take_map)
    finally show ?thesis .
  qed
  show ?thesis
  proof (rule exI[of _ X], rule exI[of _ ?Y], rule exI[of _ before], rule exI[of _ after],
      rule exI[of _ cs], intro conjI impI)
    show "merge (Some original) (Some [o1, o2]) = X @ map Line ?C @ ?Y"
      by (rule split)
    show "\<forall>e \<in> set X \<union> set ?Y. plainEntry e"
      using Xplain Yplain by blast
    show "parseDiffToMergeBlocks (merge (Some original) (Some [o1, o2]))
          = Inr (before
                 @ [\<lparr>status = CONFLICT,
                     blockValues = \<lparr>former = [],
                                    current = map val (insertedAt a o1) @ map val (insertedAt a o2)\<rparr>,
                     ignored = False\<rparr>]
                 @ after)"
      unfolding split blocks Cval ..
    show "\<forall>b \<in> set before \<union> set after. status b = OK"
      by (rule oks)
    show "markedCopy original cs"
      by (rule cs)
    assume "isArrayIndex a"
    then show "filter (\<lambda>e. \<not> isInsertion e) X = map Line (take (nat (a + 1)) cs)"
      by (rule pos)
  qed
qed

text \<open>An example with the shared anchor 0.\<close>

lemma merge_same_anchor_example:
  "insertedAt 0
     [\<lparr>val = ''A'' @ [newline], added = False, removed = False, lineNumber = 0,
        conflicted = False, conflictGroup = None\<rparr>,
      \<lparr>val = ''X'' @ [newline], added = True, removed = False, lineNumber = 0,
        conflicted = False, conflictGroup = None\<rparr>,
      \<lparr>val = ''B'' @ [newline], added = False, removed = False, lineNumber = 1,
        conflicted = False, conflictGroup = None\<rparr>]
     = [\<lparr>val = ''X'' @ [newline], added = True, removed = False, lineNumber = 0,
          conflicted = False, conflictGroup = None\<rparr>]
   \<and> insertedAt 0
     [\<lparr>val = ''A'' @ [newline], added = False, removed = False, lineNumber = 0,
        conflicted = False, conflictGroup = None\<rparr>,
      \<lparr>val = ''Y'' @ [newline], added = True, removed = False, lineNumber = 0,
        conflicted = False, conflictGroup = None\<rparr>,
      \<lparr>val = ''B'' @ [newline], added = False, removed = False, lineNumber = 1,
        conflicted = False, conflictGroup = None\<rparr>]
     = [\<lparr>val = ''Y'' @ [newline], added = True, removed = False, lineNumber = 0,
          conflicted = False, conflictGroup = None\<rparr>]
   \<and> parseDiffToMergeBlocks
       (merge
          (Some [\<lparr>val = ''A'' @ [newline], added = False, removed = False, lineNumber = 0,
                   conflicted = False, conflictGroup = None\<rparr>,
                 \<lparr>val = ''B'' @ [newline], added = False, removed = False, lineNumber = 1,
                   conflicted = False, conflictGroup = None\<rparr>])
          (Some [[\<lparr>val = ''A'' @ [newline], added = False, removed = False, lineNumber = 0,
                    conflicted = False, conflictGroup = None\<rparr>,
                  \<lparr>val = ''X'' @ [newline], added = True, removed = False, lineNumber = 0,
                    conflicted = False, conflictGroup = None\<rparr>,
                  \<lparr>val = ''B'' @ [newline], added = False, removed = False, lineNumber = 1,
                    conflicted = False, conflictGroup = None\<rparr>],
                 [\<lparr>val = ''A'' @ [newline], added = False, removed = False, lineNumber = 0,
                    conflicted = False, conflictGroup = None\<rparr>,
                  \<lparr>val = ''Y'' @ [newline], added = True, removed = False, lineNumber = 0,
                    conflicted = False, conflictGroup = None\<rparr>,
                  \<lparr>val = ''B'' @ [newline], added = False, removed = False, lineNumber = 1,
                    conflicted = False, conflictGroup = None\<rparr>]]))
     = Inr [\<lparr>status = OK, blockValues = \<lparr>former = [], current = [''A'' @ [newline]]\<rparr>,
              ignored = False\<rparr>,
            \<lparr>status = CONFLICT,
              blockValues = \<lparr>former = [], current = [''X'' @ [newline], ''Y'' @ [newline]]\<rparr>,
              ignored = False\<rparr>,
            \<lparr>status = OK, blockValues = \<lparr>former = [], current = [''B'' @ [newline]]\<rparr>,
              ignored = False\<rparr>]"
proof -
  let ?A = "\<lparr>val = ''A'' @ [newline], added = False, removed = False, lineNumber = 0,
        conflicted = False, conflictGroup = None\<rparr>"
  let ?B = "\<lparr>val = ''B'' @ [newline], added = False, removed = False, lineNumber = 1,
        conflicted = False, conflictGroup = None\<rparr>"
  let ?X = "\<lparr>val = ''X'' @ [newline], added = True, removed = False, lineNumber = 0,
        conflicted = False, conflictGroup = None\<rparr>"
  let ?Y = "\<lparr>val = ''Y'' @ [newline], added = True, removed = False, lineNumber = 0,
        conflicted = False, conflictGroup = None\<rparr>"
  have base: "\<forall>c \<in> set [?A, ?B]. \<not> conflicted c \<and> \<not> added c"
    by simp
  have wf: "\<forall>c \<in> set [?A, ?X, ?B] \<union> set [?A, ?Y, ?B].
               \<not> conflicted c \<and> (added c \<longrightarrow> \<not> removed c)
               \<and> (\<not> added c \<and> removed c \<longrightarrow> lineNumber c < int (length [?A, ?B]))"
    by simp
  have a1: "insertedAt 0 [?A, ?X, ?B] \<noteq> []"
    by (simp add: insertedAt_def)
  have a2: "insertedAt 0 [?A, ?Y, ?B] \<noteq> []"
    by (simp add: insertedAt_def)
  have only: "\<forall>k. insertedAt k [?A, ?X, ?B] \<noteq> [] \<and> insertedAt k [?A, ?Y, ?B] \<noteq> [] \<longrightarrow> k = 0"
    by (simp add: insertedAt_def)
  have blocks: "parseDiffToMergeBlocks
      (merge (Some [?A, ?B]) (Some [[?A, ?X, ?B], [?A, ?Y, ?B]]))
     = Inr [\<lparr>status = OK, blockValues = \<lparr>former = [], current = [''A'' @ [newline]]\<rparr>,
              ignored = False\<rparr>,
            \<lparr>status = CONFLICT,
              blockValues = \<lparr>former = [], current = [''X'' @ [newline], ''Y'' @ [newline]]\<rparr>,
              ignored = False\<rparr>,
            \<lparr>status = OK, blockValues = \<lparr>former = [], current = [''B'' @ [newline]]\<rparr>,
              ignored = False\<rparr>]"
    by (simp add: merge_def applyDiff_def applyChange_def pushPatch_def uniq_def
        bumpModifyLength_def markConflicts_def objectEntries_def isArrayIndex_def
        slice_def slice_from_def relativeIndex_def parseDiffToMergeBlocks_def
        pushToLast_def emptyBlock_def)
  show ?thesis
    using merge_same_anchor[OF base wf a1 a2 only] blocks
    by (simp add: insertedAt_def)
qed

text \<open>
  Two overlays that share two anchors (both insert after line 0 and after line 1)
  give one \<open>CONFLICT\<close> block for each anchor.
\<close>

lemma merge_two_shared_anchors:
  "parseDiffToMergeBlocks
     (merge
        (Some [\<lparr>val = ''A'' @ [newline], added = False, removed = False, lineNumber = 0,
                 conflicted = False, conflictGroup = None\<rparr>,
               \<lparr>val = ''B'' @ [newline], added = False, removed = False, lineNumber = 1,
                 conflicted = False, conflictGroup = None\<rparr>])
        (Some [[\<lparr>val = ''A'' @ [newline], added = False, removed = False, lineNumber = 0,
                  conflicted = False, conflictGroup = None\<rparr>,
                \<lparr>val = ''X'' @ [newline], added = True, removed = False, lineNumber = 0,
                  conflicted = False, conflictGroup = None\<rparr>,
                \<lparr>val = ''B'' @ [newline], added = False, removed = False, lineNumber = 1,
                  conflicted = False, conflictGroup = None\<rparr>,
                \<lparr>val = ''P'' @ [newline], added = True, removed = False, lineNumber = 1,
                  conflicted = False, conflictGroup = None\<rparr>],
               [\<lparr>val = ''A'' @ [newline], added = False, removed = False, lineNumber = 0,
                  conflicted = False, conflictGroup = None\<rparr>,
                \<lparr>val = ''Y'' @ [newline], added = True, removed = False, lineNumber = 0,
                  conflicted = False, conflictGroup = None\<rparr>,
                \<lparr>val = ''B'' @ [newline], added = False, removed = False, lineNumber = 1,
                  conflicted = False, conflictGroup = None\<rparr>,
                \<lparr>val = ''Q'' @ [newline], added = True, removed = False, lineNumber = 1,
                  conflicted = False, conflictGroup = None\<rparr>]]))
   = Inr [\<lparr>status = OK, blockValues = \<lparr>former = [], current = [''A'' @ [newline]]\<rparr>,
            ignored = False\<rparr>,
          \<lparr>status = CONFLICT,
            blockValues = \<lparr>former = [], current = [''X'' @ [newline], ''Y'' @ [newline]]\<rparr>,
            ignored = False\<rparr>,
          \<lparr>status = OK, blockValues = \<lparr>former = [], current = [''B'' @ [newline]]\<rparr>,
            ignored = False\<rparr>,
          \<lparr>status = CONFLICT,
            blockValues = \<lparr>former = [], current = [''P'' @ [newline], ''Q'' @ [newline]]\<rparr>,
            ignored = False\<rparr>]"
  by (simp add: merge_def applyDiff_def applyChange_def pushPatch_def uniq_def
      bumpModifyLength_def markConflicts_def objectEntries_def isArrayIndex_def
      slice_def slice_from_def relativeIndex_def parseDiffToMergeBlocks_def
      pushToLast_def emptyBlock_def)

subsection \<open>The anchor before the first line\<close>

text \<open>
  C3 at the anchor \<open>-1\<close>. For the baseline \<open>A B\<close>, \<open>diff\<close> numbers the overlay
  \<open>X A B P\<close> as \<open>X\<close> at \<open>-1\<close>, \<open>A\<close> at 0, \<open>B\<close> at 1, \<open>P\<close> at 1, and the
  overlay \<open>Y A B\<close> as \<open>Y\<close> at \<open>-1\<close>, \<open>A\<close> at 0, \<open>B\<close> at 1: both insert before
  the first line and share no other anchor. \<open>Object.keys\<close> lists the patch key
  \<open>1\<close> before the key \<open>-1\<close>, so \<open>merge\<close> cuts the baseline at \<open>-1, 1, -1\<close>: the
  blocks are \<open>A B P\<close>, the conflict of \<open>X\<close> and \<open>Y\<close>, and the baseline \<open>A B\<close> once
  more. The conflict is not at its anchor, before \<open>A\<close>, and the rest of the file is
  not the baseline with \<open>P\<close> inserted.
\<close>

theorem merge_anchor_before_first_line:
  "assignLineNumbers 0
     (splitChanges
        [\<lparr>val = ''X'' @ [newline], added = True, removed = False\<rparr>,
         \<lparr>val = ''A'' @ [newline] @ ''B'' @ [newline], added = False, removed = False\<rparr>,
         \<lparr>val = ''P'' @ [newline], added = True, removed = False\<rparr>])
     = [\<lparr>val = ''X'' @ [newline], added = True, removed = False, lineNumber = -1,
          conflicted = False, conflictGroup = None\<rparr>,
        \<lparr>val = ''A'' @ [newline], added = False, removed = False, lineNumber = 0,
          conflicted = False, conflictGroup = None\<rparr>,
        \<lparr>val = ''B'' @ [newline], added = False, removed = False, lineNumber = 1,
          conflicted = False, conflictGroup = None\<rparr>,
        \<lparr>val = ''P'' @ [newline], added = True, removed = False, lineNumber = 1,
          conflicted = False, conflictGroup = None\<rparr>]
   \<and> assignLineNumbers 0
     (splitChanges
        [\<lparr>val = ''Y'' @ [newline], added = True, removed = False\<rparr>,
         \<lparr>val = ''A'' @ [newline] @ ''B'' @ [newline], added = False, removed = False\<rparr>])
     = [\<lparr>val = ''Y'' @ [newline], added = True, removed = False, lineNumber = -1,
          conflicted = False, conflictGroup = None\<rparr>,
        \<lparr>val = ''A'' @ [newline], added = False, removed = False, lineNumber = 0,
          conflicted = False, conflictGroup = None\<rparr>,
        \<lparr>val = ''B'' @ [newline], added = False, removed = False, lineNumber = 1,
          conflicted = False, conflictGroup = None\<rparr>]
   \<and> parseDiffToMergeBlocks
       (merge
          (Some [\<lparr>val = ''A'' @ [newline], added = False, removed = False, lineNumber = 0,
                   conflicted = False, conflictGroup = None\<rparr>,
                 \<lparr>val = ''B'' @ [newline], added = False, removed = False, lineNumber = 1,
                   conflicted = False, conflictGroup = None\<rparr>])
          (Some [[\<lparr>val = ''X'' @ [newline], added = True, removed = False, lineNumber = -1,
                    conflicted = False, conflictGroup = None\<rparr>,
                  \<lparr>val = ''A'' @ [newline], added = False, removed = False, lineNumber = 0,
                    conflicted = False, conflictGroup = None\<rparr>,
                  \<lparr>val = ''B'' @ [newline], added = False, removed = False, lineNumber = 1,
                    conflicted = False, conflictGroup = None\<rparr>,
                  \<lparr>val = ''P'' @ [newline], added = True, removed = False, lineNumber = 1,
                    conflicted = False, conflictGroup = None\<rparr>],
                 [\<lparr>val = ''Y'' @ [newline], added = True, removed = False, lineNumber = -1,
                    conflicted = False, conflictGroup = None\<rparr>,
                  \<lparr>val = ''A'' @ [newline], added = False, removed = False, lineNumber = 0,
                    conflicted = False, conflictGroup = None\<rparr>,
                  \<lparr>val = ''B'' @ [newline], added = False, removed = False, lineNumber = 1,
                    conflicted = False, conflictGroup = None\<rparr>]]))
     = Inr [\<lparr>status = OK,
              blockValues = \<lparr>former = [],
                             current = [''A'' @ [newline], ''B'' @ [newline], ''P'' @ [newline]]\<rparr>,
              ignored = False\<rparr>,
            \<lparr>status = CONFLICT,
              blockValues = \<lparr>former = [], current = [''X'' @ [newline], ''Y'' @ [newline]]\<rparr>,
              ignored = False\<rparr>,
            \<lparr>status = OK,
              blockValues = \<lparr>former = [], current = [''A'' @ [newline], ''B'' @ [newline]]\<rparr>,
              ignored = False\<rparr>]
   \<and> parseMergeBlocksToText
        [\<lparr>status = OK,
           blockValues = \<lparr>former = [],
                          current = [''A'' @ [newline], ''B'' @ [newline], ''P'' @ [newline]]\<rparr>,
           ignored = False\<rparr>,
         \<lparr>status = CONFLICT,
           blockValues = \<lparr>former = [], current = [''X'' @ [newline], ''Y'' @ [newline]]\<rparr>,
           ignored = False\<rparr>,
         \<lparr>status = OK,
           blockValues = \<lparr>former = [], current = [''A'' @ [newline], ''B'' @ [newline]]\<rparr>,
           ignored = False\<rparr>]
     = ''A'' @ [newline] @ ''B'' @ [newline] @ ''P'' @ [newline]
       @ ''<<<<<<< former'' @ [newline] @ ''======='' @ [newline]
       @ ''X'' @ [newline] @ ''Y'' @ [newline] @ ''>>>>>>> current'' @ [newline]
       @ ''A'' @ [newline] @ ''B'' @ [newline]"
proof (intro conjI)
  show "assignLineNumbers 0
     (splitChanges
        [\<lparr>val = ''X'' @ [newline], added = True, removed = False\<rparr>,
         \<lparr>val = ''A'' @ [newline] @ ''B'' @ [newline], added = False, removed = False\<rparr>,
         \<lparr>val = ''P'' @ [newline], added = True, removed = False\<rparr>])
     = [\<lparr>val = ''X'' @ [newline], added = True, removed = False, lineNumber = -1,
          conflicted = False, conflictGroup = None\<rparr>,
        \<lparr>val = ''A'' @ [newline], added = False, removed = False, lineNumber = 0,
          conflicted = False, conflictGroup = None\<rparr>,
        \<lparr>val = ''B'' @ [newline], added = False, removed = False, lineNumber = 1,
          conflicted = False, conflictGroup = None\<rparr>,
        \<lparr>val = ''P'' @ [newline], added = True, removed = False, lineNumber = 1,
          conflicted = False, conflictGroup = None\<rparr>]"
    by (simp add: splitChanges_def splitRun_def splitOn_def endsWith_nl_def)
  show "assignLineNumbers 0
     (splitChanges
        [\<lparr>val = ''Y'' @ [newline], added = True, removed = False\<rparr>,
         \<lparr>val = ''A'' @ [newline] @ ''B'' @ [newline], added = False, removed = False\<rparr>])
     = [\<lparr>val = ''Y'' @ [newline], added = True, removed = False, lineNumber = -1,
          conflicted = False, conflictGroup = None\<rparr>,
        \<lparr>val = ''A'' @ [newline], added = False, removed = False, lineNumber = 0,
          conflicted = False, conflictGroup = None\<rparr>,
        \<lparr>val = ''B'' @ [newline], added = False, removed = False, lineNumber = 1,
          conflicted = False, conflictGroup = None\<rparr>]"
    by (simp add: splitChanges_def splitRun_def splitOn_def endsWith_nl_def)
  show "parseDiffToMergeBlocks
       (merge
          (Some [\<lparr>val = ''A'' @ [newline], added = False, removed = False, lineNumber = 0,
                   conflicted = False, conflictGroup = None\<rparr>,
                 \<lparr>val = ''B'' @ [newline], added = False, removed = False, lineNumber = 1,
                   conflicted = False, conflictGroup = None\<rparr>])
          (Some [[\<lparr>val = ''X'' @ [newline], added = True, removed = False, lineNumber = -1,
                    conflicted = False, conflictGroup = None\<rparr>,
                  \<lparr>val = ''A'' @ [newline], added = False, removed = False, lineNumber = 0,
                    conflicted = False, conflictGroup = None\<rparr>,
                  \<lparr>val = ''B'' @ [newline], added = False, removed = False, lineNumber = 1,
                    conflicted = False, conflictGroup = None\<rparr>,
                  \<lparr>val = ''P'' @ [newline], added = True, removed = False, lineNumber = 1,
                    conflicted = False, conflictGroup = None\<rparr>],
                 [\<lparr>val = ''Y'' @ [newline], added = True, removed = False, lineNumber = -1,
                    conflicted = False, conflictGroup = None\<rparr>,
                  \<lparr>val = ''A'' @ [newline], added = False, removed = False, lineNumber = 0,
                    conflicted = False, conflictGroup = None\<rparr>,
                  \<lparr>val = ''B'' @ [newline], added = False, removed = False, lineNumber = 1,
                    conflicted = False, conflictGroup = None\<rparr>]]))
     = Inr [\<lparr>status = OK,
              blockValues = \<lparr>former = [],
                             current = [''A'' @ [newline], ''B'' @ [newline], ''P'' @ [newline]]\<rparr>,
              ignored = False\<rparr>,
            \<lparr>status = CONFLICT,
              blockValues = \<lparr>former = [], current = [''X'' @ [newline], ''Y'' @ [newline]]\<rparr>,
              ignored = False\<rparr>,
            \<lparr>status = OK,
              blockValues = \<lparr>former = [], current = [''A'' @ [newline], ''B'' @ [newline]]\<rparr>,
              ignored = False\<rparr>]"
    by (simp add: merge_def applyDiff_def applyChange_def pushPatch_def uniq_def
      bumpModifyLength_def markConflicts_def objectEntries_def isArrayIndex_def
      slice_def slice_from_def relativeIndex_def parseDiffToMergeBlocks_def
      pushToLast_def emptyBlock_def)
  show "parseMergeBlocksToText
        [\<lparr>status = OK,
           blockValues = \<lparr>former = [],
                          current = [''A'' @ [newline], ''B'' @ [newline], ''P'' @ [newline]]\<rparr>,
           ignored = False\<rparr>,
         \<lparr>status = CONFLICT,
           blockValues = \<lparr>former = [], current = [''X'' @ [newline], ''Y'' @ [newline]]\<rparr>,
           ignored = False\<rparr>,
         \<lparr>status = OK,
           blockValues = \<lparr>former = [], current = [''A'' @ [newline], ''B'' @ [newline]]\<rparr>,
           ignored = False\<rparr>]
     = ''A'' @ [newline] @ ''B'' @ [newline] @ ''P'' @ [newline]
       @ ''<<<<<<< former'' @ [newline] @ ''======='' @ [newline]
       @ ''X'' @ [newline] @ ''Y'' @ [newline] @ ''>>>>>>> current'' @ [newline]
       @ ''A'' @ [newline] @ ''B'' @ [newline]"
    by (simp add: parseMergeBlocksToText_def appendBlockText_def)
qed

end
